theory Spec2Isabelle
  imports Main "HOL-Library.Char_ord" "HOL-Library.AList" "HOL-Library.Sublist"
begin

section \<open>The data model of attackmatrix.py\<close>

text \<open>
  The program keeps everything in nested Python dictionaries. An ordered dictionary with
  string keys is an association list with \<^const>\<open>map_of\<close> for lookup and
  \<^const>\<open>AList.update\<close> for assignment (an existing key keeps its position, a new one is
  appended, as in Python). The seven string labels of the entity kinds are a datatype.
  Strings are byte strings; \<open>lower\<close> and \<open>upper\<close> act on the ASCII letters.
\<close>

datatype kind = Tactics | Techniques | Subtechniques | Actors | Malwares | Mitigations | Tools

text \<open>The kinds are finitely many, so dictionaries indexed by them can be compared.\<close>

instantiation kind :: enum
begin

definition enum_kind :: "kind list" where
  "enum_kind = [Tactics, Techniques, Subtechniques, Actors, Malwares, Mitigations, Tools]"

definition enum_all_kind :: "(kind \<Rightarrow> bool) \<Rightarrow> bool" where
  "enum_all_kind P = list_all P [Tactics, Techniques, Subtechniques, Actors, Malwares, Mitigations, Tools]"

definition enum_ex_kind :: "(kind \<Rightarrow> bool) \<Rightarrow> bool" where
  "enum_ex_kind P = list_ex P [Tactics, Techniques, Subtechniques, Actors, Malwares, Mitigations, Tools]"

instance
proof
  have univ: "(UNIV :: kind set) = {Tactics, Techniques, Subtechniques, Actors, Malwares, Mitigations, Tools}"
  proof -
    have "x \<in> {Tactics, Techniques, Subtechniques, Actors, Malwares, Mitigations, Tools}"
      for x :: kind
      by (cases x) simp_all
    then show ?thesis by blast
  qed
  show "(UNIV :: kind set) = set enum_class.enum"
    by (simp add: univ enum_kind_def)
  show "distinct (enum_class.enum :: kind list)"
    by (simp add: enum_kind_def)
  show "enum_class.enum_all P = Ball (UNIV :: kind set) P" for P
    by (simp add: univ enum_all_kind_def)
  show "enum_class.enum_ex P = Bex (UNIV :: kind set) P" for P
    by (simp add: univ enum_ex_kind_def)
qed

end

datatype pyerror =
  KeyError | UnboundLocalError | AttributeError | TypeError | ValueError
  | UnpicklingError | EOFError

text \<open>The \<open>name\<close> of an entity is a Python string or a Python list of strings.\<close>

datatype nameval = Scalar string | Aliases "string list"

record summary =
  s_name :: nameval
  s_description :: string

text \<open>
  The value stored under a relation key of an entity: a list of ids as \<open>Transform\<close> builds
  it, or, after unfolding, a dictionary from id to \<open>{name, description}\<close>.
\<close>

datatype relval = Ids "string list" | Unfolded "(string \<times> summary) list"

record entity =
  name :: nameval
  description :: string
  subtechnique_of :: "string option"
  rels :: "kind \<Rightarrow> relval option"

type_synonym graph = "kind \<Rightarrow> (string \<times> entity) list"

type_synonym cache = "(string \<times> graph) list"

text \<open>The decoded bundle: the records of \<open>AttackMatrix['objects']\<close>. A field is
  \<open>None\<close> when the key is missing from the JSON object.\<close>

record extref =
  source_name :: "string option"
  external_id :: "string option"

record kcphase =
  kill_chain_name :: "string option"
  phase_name :: "string option"

record stixobj =
  o_type :: "string option"
  o_id :: "string option"
  o_name :: "string option"
  o_description :: "string option"
  o_aliases :: "string list option"
  o_x_mitre_aliases :: "string list option"
  o_external_references :: "extref list option"
  o_kill_chain_phases :: "kcphase list option"
  o_x_mitre_is_subtechnique :: "bool option"
  o_revoked :: "bool option"
  o_x_mitre_deprecated :: "bool option"
  o_relationship_type :: "string option"
  o_source_ref :: "string option"
  o_target_ref :: "string option"

text \<open>The attributes of \<open>options\<close> that the modelled functions read. \<open>cacheaffix\<close> and
  the table \<open>Matrices\<close> of config/matrixtable.py are not among the source files and are
  taken as parameters.\<close>

record options =
  opt_matrix :: string
  opt_revoked :: bool
  opt_deprecated :: bool
  opt_cachedir :: string
  opt_cacheaffix :: string

section \<open>Python's string operations\<close>

text \<open>
  The model is that of Python on ASCII text. Python's \<open>str.lower\<close>, \<open>str.upper\<close>,
  \<open>string.capwords\<close>, \<open>str.split\<close> and \<open>str.strip\<close> follow Unicode: \<open>lower\<close> also maps the
  letters outside ASCII, and \<open>split\<close> and \<open>strip\<close> also take U+0085, U+00A0 and the other
  Unicode spaces for blanks. The functions below know the ASCII letters and the ASCII
  blanks only; on a string of ASCII characters they agree with Python's. The bundles and
  queries on which statements are evaluated are ASCII. The general statements about
  \<open>Transform\<close> are proved without unfolding \<open>lower\<close>: they hold whatever the
  lower-casing function is.
\<close>

definition lower_char :: "char \<Rightarrow> char" where
  "lower_char c =
     (case map_of (zip ''ABCDEFGHIJKLMNOPQRSTUVWXYZ'' ''abcdefghijklmnopqrstuvwxyz'') c of
        Some l \<Rightarrow> l | None \<Rightarrow> c)"

definition upper_char :: "char \<Rightarrow> char" where
  "upper_char c =
     (case map_of (zip ''abcdefghijklmnopqrstuvwxyz'' ''ABCDEFGHIJKLMNOPQRSTUVWXYZ'') c of
        Some u \<Rightarrow> u | None \<Rightarrow> c)"

definition lower :: "string \<Rightarrow> string" where
  "lower s = map lower_char s"

text \<open>\<open>sub in s\<close> on strings.\<close>

fun substr :: "string \<Rightarrow> string \<Rightarrow> bool" where
  "substr sub [] = (sub = [])"
| "substr sub (c # cs) = (prefix sub (c # cs) \<or> substr sub cs)"

text \<open>Truthiness of \<open>d.get(key)\<close> for a string and for a boolean field.\<close>

definition truthy :: "string option \<Rightarrow> bool" where
  "truthy v = (case v of None \<Rightarrow> False | Some s \<Rightarrow> s \<noteq> [])"

definition flag :: "bool option \<Rightarrow> bool" where
  "flag v = (v = Some True)"

definition is_space :: "char \<Rightarrow> bool" where
  "is_space c = (c \<in> set [CHR '' '', CHR 0x09, CHR 0x0A, CHR 0x0B, CHR 0x0C, CHR 0x0D,
                           CHR 0x1C, CHR 0x1D, CHR 0x1E, CHR 0x1F])"

text \<open>\<open>s.split()\<close>: the maximal runs of non-blank characters.\<close>

fun split_ws :: "string \<Rightarrow> string \<Rightarrow> string list" where
  "split_ws w [] = (if w = [] then [] else [w])"
| "split_ws w (c # cs) =
     (if is_space c then (if w = [] then split_ws [] cs else w # split_ws [] cs)
      else split_ws (w @ [c]) cs)"

definition capitalize :: "string \<Rightarrow> string" where
  "capitalize w = (case w of [] \<Rightarrow> [] | c # cs \<Rightarrow> upper_char c # lower cs)"

fun join_sp :: "string list \<Rightarrow> string" where
  "join_sp [] = []"
| "join_sp [w] = w"
| "join_sp (w # ws) = w @ '' '' @ join_sp ws"

definition capwords :: "string \<Rightarrow> string" where
  "capwords s = join_sp (map capitalize (split_ws [] s))"

definition replace_dash :: "string \<Rightarrow> string" where
  "replace_dash s = map (\<lambda>c. if c = CHR ''-'' then CHR '' '' else c) s"

text \<open>\<open>s.split('.')[0]\<close>\<close>

definition before_dot :: "string \<Rightarrow> string" where
  "before_dot s = takeWhile (\<lambda>c. c \<noteq> CHR ''.'') s"

section \<open>Relation values\<close>

text \<open>Iterating a relation value yields the ids of a list or the keys of a dictionary.\<close>

fun relkeys :: "relval \<Rightarrow> string list" where
  "relkeys (Ids xs) = xs"
| "relkeys (Unfolded d) = map fst d"

text \<open>\<open>if i not in e[k]: e[k].append(i)\<close>. A missing key raises KeyError; a dictionary
  has no \<open>append\<close>.\<close>

definition rel_add :: "entity \<Rightarrow> kind \<Rightarrow> string \<Rightarrow> pyerror + entity" where
  "rel_add en k i =
     (case rels en k of
        None \<Rightarrow> Inl KeyError
      | Some (Ids xs) \<Rightarrow>
          Inr (if i \<in> set xs then en else en\<lparr>rels := (rels en)(k \<mapsto> Ids (xs @ [i]))\<rparr>)
      | Some (Unfolded d) \<Rightarrow>
          (if i \<in> set (map fst d) then Inr en else Inl AttributeError))"

text \<open>\<open>e[k].append(i)\<close> with no membership test.\<close>

definition rel_append :: "entity \<Rightarrow> kind \<Rightarrow> string \<Rightarrow> pyerror + entity" where
  "rel_append en k i =
     (case rels en k of
        None \<Rightarrow> Inl KeyError
      | Some (Ids xs) \<Rightarrow> Inr (en\<lparr>rels := (rels en)(k \<mapsto> Ids (xs @ [i]))\<rparr>)
      | Some (Unfolded d) \<Rightarrow> Inl AttributeError)"

definition empty_rels :: "kind list \<Rightarrow> kind \<Rightarrow> relval option" where
  "empty_rels ks = (\<lambda>k. if k \<in> set ks then Some (Ids []) else None)"

definition new_entity :: "nameval \<Rightarrow> string \<Rightarrow> kind list \<Rightarrow> entity" where
  "new_entity nm d ks =
     \<lparr>name = nm, description = d, subtechnique_of = None, rels = empty_rels ks\<rparr>"

section \<open>Transform\<close>

text \<open>
  The local variables of \<open>Transform\<close> that survive from one record to the next and from
  one pass to the next, with the matrix under construction. \<open>None\<close> is an unbound local:
  reading it raises UnboundLocalError.
\<close>

record tstate =
  matrix :: graph
  cur_id :: "string option"
  cur_technique :: "string option"
  cur_relationship_type :: "string option"
  cur_sourcetype :: "kind option"
  cur_targettype :: "kind option"

text \<open>The two filters: the one of the malware and tool passes ignores
  \<open>options.revoked\<close>.\<close>

definition eligible :: "options \<Rightarrow> stixobj \<Rightarrow> bool" where
  "eligible opts e =
     ((\<not> flag (o_revoked e) \<or> (flag (o_revoked e) \<and> opt_revoked opts)) \<and>
      (\<not> flag (o_x_mitre_deprecated e) \<or>
         (flag (o_x_mitre_deprecated e) \<and> opt_deprecated opts)))"

definition eligible_unrevoked :: "options \<Rightarrow> stixobj \<Rightarrow> bool" where
  "eligible_unrevoked opts e =
     (\<not> flag (o_revoked e) \<and>
      (\<not> flag (o_x_mitre_deprecated e) \<or>
         (flag (o_x_mitre_deprecated e) \<and> opt_deprecated opts)))"

definition has_type :: "stixobj \<Rightarrow> string \<Rightarrow> bool" where
  "has_type e t = (truthy (o_type e) \<and> o_type e = Some t)"

definition description_or_default :: "stixobj \<Rightarrow> string" where
  "description_or_default e =
     (case o_description e of
        None \<Rightarrow> ''Not available.''
      | Some d \<Rightarrow> if d \<noteq> [] then d else ''Not available.'')"

text \<open>
  The loop over \<open>entry['external_references']\<close>. The test
  \<open>'mitre' and 'attack' in source_name.lower()\<close> is Python's
  \<open>'attack' in source_name.lower()\<close>: the left operand of \<open>and\<close> is a non-empty string.
  The loop has no \<open>break\<close>, so every matching reference assigns \<open>id\<close>; with no match
  \<open>id\<close> keeps the value it had.
\<close>

fun scan_refs :: "extref list \<Rightarrow> string option \<Rightarrow> pyerror + string option" where
  "scan_refs [] cur = Inr cur"
| "scan_refs (r # rs) cur =
     (if truthy (external_id r) then
        (case source_name r of
           None \<Rightarrow> Inl KeyError
         | Some sn \<Rightarrow>
             if substr ''attack'' (lower sn) then scan_refs rs (external_id r)
             else scan_refs rs cur)
      else scan_refs rs cur)"

definition put :: "graph \<Rightarrow> kind \<Rightarrow> string \<Rightarrow> entity \<Rightarrow> graph" where
  "put g k i en = g(k := AList.update i en (g k))"

definition tactic_step :: "options \<Rightarrow> tstate \<Rightarrow> stixobj \<Rightarrow> pyerror + tstate" where
  "tactic_step opts st e =
     (if eligible opts e \<and> has_type e ''x-mitre-tactic'' then
        (case o_name e of None \<Rightarrow> Inl KeyError | Some tactic \<Rightarrow>
         case o_description e of None \<Rightarrow> Inl KeyError | Some descr \<Rightarrow>
         case o_external_references e of None \<Rightarrow> Inl KeyError | Some refs \<Rightarrow>
         case scan_refs refs (cur_id st) of
           Inl err \<Rightarrow> Inl err
         | Inr None \<Rightarrow> Inl UnboundLocalError
         | Inr (Some i) \<Rightarrow>
             Inr (st\<lparr>cur_id := Some i,
                     matrix := put (matrix st) Tactics i
                       (new_entity (Scalar tactic) descr [Techniques])\<rparr>))
      else Inr st)"

text \<open>\<open>for tactic in matrix['Tactics']\<close>: the keys of the dictionary are distinct, so
  the loop visits each entry once.\<close>

fun tactics_add ::
  "string \<Rightarrow> string \<Rightarrow> (string \<times> entity) list \<Rightarrow> pyerror + (string \<times> entity) list" where
  "tactics_add i ph [] = Inr []"
| "tactics_add i ph ((t, en) # rest) =
     (case name en of
        Aliases _ \<Rightarrow> Inl AttributeError
      | Scalar n \<Rightarrow>
          (case (if substr (lower n) (lower ph) then rel_add en Techniques i else Inr en) of
             Inl err \<Rightarrow> Inl err
           | Inr en' \<Rightarrow>
               (case tactics_add i ph rest of
                  Inl err \<Rightarrow> Inl err
                | Inr rest' \<Rightarrow> Inr ((t, en') # rest'))))"

fun phases_loop ::
  "string \<Rightarrow> kcphase list \<Rightarrow> (string \<times> entity) list \<Rightarrow> pyerror + (string \<times> entity) list" where
  "phases_loop i [] tacs = Inr tacs"
| "phases_loop i (p # ps) tacs =
     (case kill_chain_name p of
        None \<Rightarrow> Inl KeyError
      | Some kcn \<Rightarrow>
          (case phase_name p of
             None \<Rightarrow> phases_loop i ps tacs
           | Some ph \<Rightarrow>
               if substr ''attack'' kcn \<and> ph \<noteq> [] then
                 (case tactics_add i (capwords (replace_dash ph)) tacs of
                    Inl err \<Rightarrow> Inl err
                  | Inr tacs' \<Rightarrow> phases_loop i ps tacs')
               else phases_loop i ps tacs))"

definition technique_step :: "options \<Rightarrow> tstate \<Rightarrow> stixobj \<Rightarrow> pyerror + tstate" where
  "technique_step opts st e =
     (if eligible opts e \<and> has_type e ''attack-pattern''
         \<and> \<not> flag (o_x_mitre_is_subtechnique e) then
        (case o_name e of None \<Rightarrow> Inl KeyError | Some technique \<Rightarrow>
         case o_external_references e of None \<Rightarrow> Inl KeyError | Some refs \<Rightarrow>
         case scan_refs refs (cur_id st) of
           Inl err \<Rightarrow> Inl err
         | Inr None \<Rightarrow> Inl UnboundLocalError
         | Inr (Some i) \<Rightarrow>
             (let m1 = put (matrix st) Techniques i
                    (new_entity (Scalar technique) (description_or_default e)
                       [Actors, Malwares, Mitigations, Subtechniques, Tools])
              in case phases_loop i (case o_kill_chain_phases e of None \<Rightarrow> [] | Some ps \<Rightarrow> ps)
                        (m1 Tactics) of
                   Inl err \<Rightarrow> Inl err
                 | Inr tacs \<Rightarrow>
                     Inr (st\<lparr>cur_id := Some i, cur_technique := Some technique,
                             matrix := m1(Tactics := tacs)\<rparr>)))
      else Inr st)"

text \<open>The reference loop of the subtechnique pass also assigns \<open>technique\<close> and looks
  the parent up: \<open>matrix['Techniques'][technique]['name']\<close> raises KeyError when the
  parent is not there.\<close>

fun scan_sub_refs ::
  "(string \<times> entity) list \<Rightarrow> extref list \<Rightarrow> string option \<times> string option
     \<Rightarrow> pyerror + (string option \<times> string option)" where
  "scan_sub_refs techs [] cur = Inr cur"
| "scan_sub_refs techs (r # rs) cur =
     (if truthy (external_id r) then
        (case source_name r of
           None \<Rightarrow> Inl KeyError
         | Some sn \<Rightarrow>
             if substr ''attack'' (lower sn) then
               (case external_id r of
                  None \<Rightarrow> scan_sub_refs techs rs cur
                | Some i \<Rightarrow>
                    (case map_of techs (before_dot i) of
                       None \<Rightarrow> Inl KeyError
                     | Some _ \<Rightarrow> scan_sub_refs techs rs (Some i, Some (before_dot i))))
             else scan_sub_refs techs rs cur)
      else scan_sub_refs techs rs cur)"

definition subtechnique_step :: "options \<Rightarrow> tstate \<Rightarrow> stixobj \<Rightarrow> pyerror + tstate" where
  "subtechnique_step opts st e =
     (if eligible opts e \<and> has_type e ''attack-pattern''
         \<and> flag (o_x_mitre_is_subtechnique e) then
        (case o_name e of None \<Rightarrow> Inl KeyError | Some subtechnique \<Rightarrow>
         case o_external_references e of None \<Rightarrow> Inl KeyError | Some refs \<Rightarrow>
         case scan_sub_refs (matrix st Techniques) refs (cur_id st, cur_technique st) of
           Inl err \<Rightarrow> Inl err
         | Inr (_, None) \<Rightarrow> Inl UnboundLocalError
         | Inr (None, Some _) \<Rightarrow> Inl UnboundLocalError
         | Inr (Some i, Some technique) \<Rightarrow>
             (let m1 = put (matrix st) Subtechniques i
                    ((new_entity (Scalar subtechnique) (description_or_default e)
                       [Actors, Malwares, Mitigations, Subtechniques, Tools])
                     \<lparr>subtechnique_of := Some technique\<rparr>)
              in case map_of (m1 Techniques) technique of
                   None \<Rightarrow> Inl KeyError
                 | Some ten \<Rightarrow>
                     (case rel_append ten Subtechniques i of
                        Inl err \<Rightarrow> Inl err
                      | Inr ten' \<Rightarrow>
                          Inr (st\<lparr>cur_id := Some i, cur_technique := Some technique,
                                  matrix := put m1 Techniques technique ten'\<rparr>))))
      else Inr st)"

definition actor_step :: "options \<Rightarrow> tstate \<Rightarrow> stixobj \<Rightarrow> pyerror + tstate" where
  "actor_step opts st e =
     (if eligible opts e \<and> has_type e ''intrusion-set'' then
        (case (case o_aliases e of
                 Some (a # as) \<Rightarrow> Inr (Aliases (a # as))
               | _ \<Rightarrow> (case o_name e of None \<Rightarrow> Inl KeyError | Some n \<Rightarrow> Inr (Scalar n))) of
           Inl err \<Rightarrow> Inl err
         | Inr names \<Rightarrow>
        (case o_external_references e of None \<Rightarrow> Inl KeyError | Some refs \<Rightarrow>
         case scan_refs refs (cur_id st) of
           Inl err \<Rightarrow> Inl err
         | Inr None \<Rightarrow> Inl UnboundLocalError
         | Inr (Some i) \<Rightarrow>
             Inr (st\<lparr>cur_id := Some i,
                     matrix := put (matrix st) Actors i
                       (new_entity names (description_or_default e)
                          [Malwares, Subtechniques, Techniques, Tools])\<rparr>)))
      else Inr st)"

definition malware_step :: "options \<Rightarrow> tstate \<Rightarrow> stixobj \<Rightarrow> pyerror + tstate" where
  "malware_step opts st e =
     (if eligible_unrevoked opts e \<and> has_type e ''malware'' then
        (case o_x_mitre_aliases e of None \<Rightarrow> Inl KeyError | Some names \<Rightarrow>
         case o_external_references e of None \<Rightarrow> Inl KeyError | Some refs \<Rightarrow>
         case scan_refs refs (cur_id st) of
           Inl err \<Rightarrow> Inl err
         | Inr None \<Rightarrow> Inl UnboundLocalError
         | Inr (Some i) \<Rightarrow>
             Inr (st\<lparr>cur_id := Some i,
                     matrix := put (matrix st) Malwares i
                       (new_entity (Aliases names) (description_or_default e)
                          [Actors, Subtechniques, Techniques])\<rparr>))
      else Inr st)"

definition mitigation_step :: "options \<Rightarrow> tstate \<Rightarrow> stixobj \<Rightarrow> pyerror + tstate" where
  "mitigation_step opts st e =
     (if eligible opts e \<and> has_type e ''course-of-action'' then
        (case o_name e of None \<Rightarrow> Inl KeyError | Some names \<Rightarrow>
         case o_description e of None \<Rightarrow> Inl KeyError | Some descr \<Rightarrow>
         case o_external_references e of None \<Rightarrow> Inl KeyError | Some refs \<Rightarrow>
         case scan_refs refs (cur_id st) of
           Inl err \<Rightarrow> Inl err
         | Inr None \<Rightarrow> Inl UnboundLocalError
         | Inr (Some i) \<Rightarrow>
             Inr (st\<lparr>cur_id := Some i,
                     matrix := put (matrix st) Mitigations i
                       (new_entity (Scalar names) descr [Subtechniques, Techniques])\<rparr>))
      else Inr st)"

definition tool_step :: "options \<Rightarrow> tstate \<Rightarrow> stixobj \<Rightarrow> pyerror + tstate" where
  "tool_step opts st e =
     (if eligible_unrevoked opts e \<and> has_type e ''tool'' then
        (case o_x_mitre_aliases e of None \<Rightarrow> Inl KeyError | Some names \<Rightarrow>
         case o_description e of None \<Rightarrow> Inl KeyError | Some descr \<Rightarrow>
         case o_external_references e of None \<Rightarrow> Inl KeyError | Some refs \<Rightarrow>
         case scan_refs refs (cur_id st) of
           Inl err \<Rightarrow> Inl err
         | Inr None \<Rightarrow> Inl UnboundLocalError
         | Inr (Some i) \<Rightarrow>
             Inr (st\<lparr>cur_id := Some i,
                     matrix := put (matrix st) Tools i
                       (new_entity (Aliases names) descr
                          [Actors, Subtechniques, Techniques])\<rparr>))
      else Inr st)"

fun run_pass ::
  "(tstate \<Rightarrow> stixobj \<Rightarrow> pyerror + tstate) \<Rightarrow> stixobj list \<Rightarrow> tstate \<Rightarrow> pyerror + tstate" where
  "run_pass f [] st = Inr st"
| "run_pass f (e # es) st =
     (case f st e of Inl err \<Rightarrow> Inl err | Inr st' \<Rightarrow> run_pass f es st')"

subsection \<open>Linking\<close>

text \<open>The five independent \<open>if sourceentry['type'] == ...\<close> tests: a type that is none
  of the five leaves \<open>sourcetype\<close> as it was.\<close>

definition type_kind :: "string \<Rightarrow> kind option \<Rightarrow> kind option" where
  "type_kind ty cur =
     (if ty = ''attack-pattern'' then Some Techniques
      else if ty = ''intrusion-set'' then Some Actors
      else if ty = ''malware'' then Some Malwares
      else if ty = ''course-of-action'' then Some Mitigations
      else if ty = ''tool'' then Some Tools
      else cur)"

fun scan_endpoint_refs ::
  "extref list \<Rightarrow> string option \<times> kind option \<Rightarrow> pyerror + (string option \<times> kind option)" where
  "scan_endpoint_refs [] cur = Inr cur"
| "scan_endpoint_refs (r # rs) (sid, sk) =
     (if truthy (external_id r) then
        (case source_name r of
           None \<Rightarrow> Inl KeyError
         | Some sn \<Rightarrow>
             if substr ''attack'' (lower sn) then
               (case external_id r of
                  None \<Rightarrow> scan_endpoint_refs rs (sid, sk)
                | Some i \<Rightarrow>
                    scan_endpoint_refs rs
                      (Some i, if CHR ''.'' \<in> set i then Some Subtechniques else sk))
             else scan_endpoint_refs rs (sid, sk))
      else scan_endpoint_refs rs (sid, sk))"

text \<open>\<open>for sourceentry in AttackMatrix['objects']\<close>: every record whose \<open>id\<close> equals the
  reference, whatever its flags.\<close>

fun scan_endpoint ::
  "string \<Rightarrow> stixobj list \<Rightarrow> string option \<times> kind option
     \<Rightarrow> pyerror + (string option \<times> kind option)" where
  "scan_endpoint ref [] cur = Inr cur"
| "scan_endpoint ref (x # xs) (sid, sk) =
     (case o_id x of
        None \<Rightarrow> Inl KeyError
      | Some oid \<Rightarrow>
          if lower oid = lower ref then
            (case o_type x of
               None \<Rightarrow> Inl KeyError
             | Some ty \<Rightarrow>
                 (case o_external_references x of
                    None \<Rightarrow> Inl KeyError
                  | Some refs \<Rightarrow>
                      (case scan_endpoint_refs refs (sid, type_kind ty sk) of
                         Inl err \<Rightarrow> Inl err
                       | Inr cur' \<Rightarrow> scan_endpoint ref xs cur')))
          else scan_endpoint ref xs (sid, sk))"

text \<open>
  One \<open>try\<close> block:
  \<open>if tid not in matrix[sk][sid][tk]: matrix[sk][sid][tk].append(tid)\<close>,
  with \<open>except KeyError: pass\<close>. The kinds are the local variables \<open>sourcetype\<close> and
  \<open>targettype\<close>, read in this order; an unbound one raises UnboundLocalError, which
  the handler does not catch.
\<close>

definition try_link ::
  "graph \<Rightarrow> kind option \<Rightarrow> string \<Rightarrow> kind option \<Rightarrow> string \<Rightarrow> pyerror + graph" where
  "try_link g sk sid tk tid =
     (case sk of
        None \<Rightarrow> Inl UnboundLocalError
      | Some ks \<Rightarrow>
          (case map_of (g ks) sid of
             None \<Rightarrow> Inr g
           | Some en \<Rightarrow>
               (case tk of
                  None \<Rightarrow> Inl UnboundLocalError
                | Some kt \<Rightarrow>
                    (case rel_add en kt tid of
                       Inl err \<Rightarrow> if err = KeyError then Inr g else Inl err
                     | Inr en' \<Rightarrow> Inr (put g ks sid en')))))"

definition link_step ::
  "options \<Rightarrow> stixobj list \<Rightarrow> tstate \<Rightarrow> stixobj \<Rightarrow> pyerror + tstate" where
  "link_step opts objs st e =
     (if eligible opts e \<and> truthy (o_type e) then
        (let rt = (if truthy (o_relationship_type e) then o_relationship_type e
                   else cur_relationship_type st);
             st1 = st\<lparr>cur_relationship_type := rt\<rparr>
         in if o_type e = Some ''relationship'' then
              (case rt of
                 None \<Rightarrow> Inl UnboundLocalError
               | Some r \<Rightarrow>
                   if r = ''mitigates'' \<or> r = ''uses'' then
                     (case o_source_ref e of None \<Rightarrow> Inl KeyError | Some source \<Rightarrow>
                      case o_target_ref e of None \<Rightarrow> Inl KeyError | Some target \<Rightarrow>
                      case scan_endpoint source objs (None, cur_sourcetype st1) of
                        Inl err \<Rightarrow> Inl err
                      | Inr (sourceid, sourcetype) \<Rightarrow>
                      (case scan_endpoint target objs (None, cur_targettype st1) of
                        Inl err \<Rightarrow> Inl err
                      | Inr (targetid, targettype) \<Rightarrow>
                          (let st2 = st1\<lparr>cur_sourcetype := sourcetype,
                                         cur_targettype := targettype\<rparr>
                           in case (sourceid, targetid) of
                                (Some sid, Some tid) \<Rightarrow>
                                  if sid \<noteq> tid then
                                    (case try_link (matrix st2) sourcetype sid targettype tid of
                                       Inl err \<Rightarrow> Inl err
                                     | Inr g1 \<Rightarrow>
                                         (case try_link g1 targettype tid sourcetype sid of
                                            Inl err \<Rightarrow> Inl err
                                          | Inr g2 \<Rightarrow> Inr (st2\<lparr>matrix := g2\<rparr>)))
                                  else Inr st2
                              | _ \<Rightarrow> Inr st2)))
                   else Inr st1)
            else Inr st1)
      else Inr st)"

definition init_state :: tstate where
  "init_state =
     \<lparr>matrix = (\<lambda>_. []), cur_id = None, cur_technique = None,
      cur_relationship_type = None, cur_sourcetype = None, cur_targettype = None\<rparr>"

text \<open>The seven creation passes, in the order of the source.\<close>

definition create_passes :: "options \<Rightarrow> stixobj list \<Rightarrow> pyerror + tstate" where
  "create_passes opts objs =
     (case run_pass (tactic_step opts) objs init_state of Inl err \<Rightarrow> Inl err | Inr s1 \<Rightarrow>
      case run_pass (technique_step opts) objs s1 of Inl err \<Rightarrow> Inl err | Inr s2 \<Rightarrow>
      case run_pass (subtechnique_step opts) objs s2 of Inl err \<Rightarrow> Inl err | Inr s3 \<Rightarrow>
      case run_pass (actor_step opts) objs s3 of Inl err \<Rightarrow> Inl err | Inr s4 \<Rightarrow>
      case run_pass (malware_step opts) objs s4 of Inl err \<Rightarrow> Inl err | Inr s5 \<Rightarrow>
      case run_pass (mitigation_step opts) objs s5 of Inl err \<Rightarrow> Inl err | Inr s6 \<Rightarrow>
      run_pass (tool_step opts) objs s6)"

definition Transform_graph :: "options \<Rightarrow> stixobj list \<Rightarrow> pyerror + graph" where
  "Transform_graph opts objs =
     (case create_passes opts objs of Inl err \<Rightarrow> Inl err | Inr s7 \<Rightarrow>
      case run_pass (link_step opts objs) objs s7 of
        Inl err \<Rightarrow> Inl err
      | Inr s8 \<Rightarrow> Inr (matrix s8))"

text \<open>\<open>Transform\<close> returns \<open>{options.matrix: graph}\<close>.\<close>

definition Transform :: "options \<Rightarrow> stixobj list \<Rightarrow> pyerror + cache" where
  "Transform opts objs =
     (case Transform_graph opts objs of
        Inl err \<Rightarrow> Inl err
      | Inr g \<Rightarrow> Inr [(opt_matrix opts, g)])"

section \<open>The cache files\<close>

text \<open>
  A cache file holds what \<open>pickle.load\<close> makes of it: an object (the dictionary that
  \<open>Transform\<close> returned, or \<open>None\<close>), or the exception that decoding its bytes raises.
  A path with no file makes \<open>open\<close> raise FileNotFoundError.
\<close>

datatype pickled = Unpickles "cache option" | UnpickleRaises pyerror

type_synonym filesystem = "string \<Rightarrow> pickled option"

definition cache_path :: "options \<Rightarrow> string \<Rightarrow> string" where
  "cache_path opts matrixname = opt_cachedir opts @ ''/'' @ matrixname @ opt_cacheaffix opts"

text \<open>\<open>except (ValueError, FileNotFoundError)\<close>: the handler only logs, and the function
  ends without a \<open>return\<close>, that is with \<open>None\<close>. Any other exception leaves the
  function.\<close>

definition loadCache :: "options \<Rightarrow> filesystem \<Rightarrow> string \<Rightarrow> pyerror + cache option" where
  "loadCache opts fs matrixname =
     (case fs (cache_path opts matrixname) of
        None \<Rightarrow> Inr None
      | Some (Unpickles m) \<Rightarrow> Inr m
      | Some (UnpickleRaises err) \<Rightarrow> if err = ValueError then Inr None else Inl err)"

text \<open>\<open>{**a, **b}\<close>\<close>

definition merge :: "('k \<times> 'v) list \<Rightarrow> ('k \<times> 'v) list \<Rightarrow> ('k \<times> 'v) list" where
  "merge a b = fold (\<lambda>(k, v) acc. AList.update k v acc) b a"

text \<open>\<open>{**matrices, **None}\<close> raises TypeError.\<close>

fun loadCaches_loop ::
  "options \<Rightarrow> filesystem \<Rightarrow> string list \<Rightarrow> cache \<Rightarrow> pyerror + cache" where
  "loadCaches_loop opts fs [] matrices = Inr matrices"
| "loadCaches_loop opts fs (matrixname # rest) matrices =
     (case loadCache opts fs matrixname of
        Inl err \<Rightarrow> Inl err
      | Inr None \<Rightarrow> Inl TypeError
      | Inr (Some c) \<Rightarrow> loadCaches_loop opts fs rest (merge matrices c))"

text \<open>\<open>matrixcaches\<close> is \<open>list(Matrices.keys())\<close>, a parameter here.\<close>

definition loadCaches :: "options \<Rightarrow> filesystem \<Rightarrow> string list \<Rightarrow> pyerror + cache" where
  "loadCaches opts fs matrixcaches = loadCaches_loop opts fs matrixcaches []"

section \<open>search\<close>

definition kind_name :: "kind \<Rightarrow> string" where
  "kind_name k =
     (case k of Tactics \<Rightarrow> ''Tactics'' | Techniques \<Rightarrow> ''Techniques''
      | Subtechniques \<Rightarrow> ''Subtechniques'' | Actors \<Rightarrow> ''Actors'' | Malwares \<Rightarrow> ''Malwares''
      | Mitigations \<Rightarrow> ''Mitigations'' | Tools \<Rightarrow> ''Tools'')"

definition upper :: "string \<Rightarrow> string" where
  "upper s = map upper_char s"

definition rstrip_char :: "char \<Rightarrow> string \<Rightarrow> string" where
  "rstrip_char c s = rev (dropWhile (\<lambda>x. x = c) (rev s))"

definition strip :: "string \<Rightarrow> string" where
  "strip s = rev (dropWhile is_space (rev (dropWhile is_space s)))"

text \<open>The keys of a graph, in the order in which \<open>Transform\<close> creates them.\<close>

definition graph_kinds :: "kind list" where
  "graph_kinds = [Tactics, Techniques, Subtechniques, Actors, Malwares, Mitigations, Tools]"

definition unfoldFields :: "kind list" where
  "unfoldFields = [Actors, Malwares, Mitigations, Subtechniques, Techniques]"

definition placeholder :: "kind \<Rightarrow> string \<Rightarrow> summary" where
  "placeholder unfoldField key =
     \<lparr>s_name = Scalar key,
      s_description = ''*** DEPRECATED OR REVOKED ''
         @ upper (rstrip_char CHR ''s'' (kind_name unfoldField)) @ '' ***''\<rparr>"

definition summary_of :: "entity \<Rightarrow> summary" where
  "summary_of en = \<lparr>s_name = name en, s_description = description en\<rparr>"

text \<open>The loop \<open>for key in cache[matrixname][entitytype][entity][unfoldField]\<close> of
  \<open>unfoldKeys\<close>.\<close>

definition unfold_rel :: "graph \<Rightarrow> kind \<Rightarrow> string list \<Rightarrow> (string \<times> summary) list" where
  "unfold_rel g unfoldField keys =
     fold (\<lambda>key acc.
             AList.update key
               (case map_of (g unfoldField) key of
                  Some en \<Rightarrow> summary_of en
                | None \<Rightarrow> placeholder unfoldField key) acc)
          keys []"

definition unfoldKeys :: "cache \<Rightarrow> string \<Rightarrow> kind \<Rightarrow> string \<Rightarrow> pyerror + entity" where
  "unfoldKeys cache matrixname entitytype entity =
     (case map_of cache matrixname of
        None \<Rightarrow> Inl KeyError
      | Some g \<Rightarrow>
          (case map_of (g entitytype) entity of
             None \<Rightarrow> Inl KeyError
           | Some en \<Rightarrow>
               Inr \<lparr>name = name en, description = description en, subtechnique_of = None,
                    rels = (\<lambda>k. if k \<in> set unfoldFields then
                                  (case rels en k of
                                     None \<Rightarrow> None
                                   | Some rv \<Rightarrow>
                                       if relkeys rv \<noteq> [] then
                                         Some (Unfolded (unfold_rel g k (relkeys rv)))
                                       else None)
                                else None)\<rparr>))"

text \<open>
  The tests of \<open>searchMatrix\<close> on the two search fields of one entity. A list is searched
  item by item, with both sides lower-cased; a string is searched as it is, against the
  lower-cased query. The description is always a string.
\<close>

definition field_matches :: "string \<Rightarrow> entity \<Rightarrow> bool" where
  "field_matches query en =
     ((case name en of
         Aliases items \<Rightarrow> list_ex (\<lambda>item. substr (lower query) (lower item)) items
       | Scalar s \<Rightarrow> substr (lower query) s)
      \<or> substr (lower query) (description en))"

fun search_entities ::
  "cache \<Rightarrow> string \<Rightarrow> string \<Rightarrow> kind \<Rightarrow> graph \<Rightarrow> string list \<Rightarrow> (string \<times> entity) list
     \<Rightarrow> pyerror + (string \<times> entity) list" where
  "search_entities cache matrixname query entitytype g [] acc = Inr acc"
| "search_entities cache matrixname query entitytype g (entity # rest) acc =
     (case map_of (g entitytype) entity of
        None \<Rightarrow> Inl KeyError
      | Some en \<Rightarrow>
          if field_matches query en \<and> map_of acc entity = None then
            (case unfoldKeys cache matrixname entitytype entity of
               Inl err \<Rightarrow> Inl err
             | Inr u \<Rightarrow>
                 search_entities cache matrixname query entitytype g rest
                   (AList.update entity u acc))
          else search_entities cache matrixname query entitytype g rest acc)"

fun search_kinds ::
  "cache \<Rightarrow> string \<Rightarrow> string \<Rightarrow> graph \<Rightarrow> kind list \<Rightarrow> (kind \<times> (string \<times> entity) list) list
     \<Rightarrow> pyerror + (kind \<times> (string \<times> entity) list) list" where
  "search_kinds cache matrixname query g [] results = Inr results"
| "search_kinds cache matrixname query g (entitytype # rest) results =
     (let acc = (case map_of results entitytype of None \<Rightarrow> [] | Some d \<Rightarrow> d)
      in case search_entities cache matrixname query entitytype g
                (map fst (g entitytype)) acc of
           Inl err \<Rightarrow> Inl err
         | Inr acc' \<Rightarrow>
             search_kinds cache matrixname query g rest
               (AList.update entitytype acc' results))"

fun search_queries ::
  "cache \<Rightarrow> string \<Rightarrow> string list \<Rightarrow> (kind \<times> (string \<times> entity) list) list
     \<Rightarrow> pyerror + (kind \<times> (string \<times> entity) list) list" where
  "search_queries cache matrixname [] results = Inr results"
| "search_queries cache matrixname (query # rest) results =
     (case map_of cache matrixname of
        None \<Rightarrow> Inl KeyError
      | Some g \<Rightarrow>
          (case search_kinds cache matrixname query g graph_kinds results of
             Inl err \<Rightarrow> Inl err
           | Inr results' \<Rightarrow> search_queries cache matrixname rest results'))"

definition searchMatrix ::
  "options \<Rightarrow> filesystem \<Rightarrow> string list \<Rightarrow> string
     \<Rightarrow> pyerror + (kind \<times> (string \<times> entity) list) list" where
  "searchMatrix opts fs params matrixname =
     (if matrixname = [] then Inr []
      else case loadCache opts fs matrixname of
             Inl err \<Rightarrow> Inl err
           | Inr None \<Rightarrow> Inr []
           | Inr (Some cache) \<Rightarrow>
               if cache = [] then Inr []
               else (case search_queries cache matrixname params [] of
                       Inl err \<Rightarrow> Inl err
                     | Inr results \<Rightarrow> Inr (filter (\<lambda>(k, d). d \<noteq> []) results)))"

fun search_loop ::
  "options \<Rightarrow> filesystem \<Rightarrow> string list \<Rightarrow> string list
     \<Rightarrow> (string \<times> (kind \<times> (string \<times> entity) list) list) list
     \<Rightarrow> pyerror + (string \<times> (kind \<times> (string \<times> entity) list) list) list" where
  "search_loop opts fs params [] results = Inr results"
| "search_loop opts fs params (matrixname # rest) results =
     (case searchMatrix opts fs params matrixname of
        Inl err \<Rightarrow> Inl err
      | Inr r \<Rightarrow> search_loop opts fs params rest (AList.update matrixname r results))"

text \<open>\<open>search\<close>; \<open>Matrices.keys()\<close> is the parameter \<open>matrixcaches\<close>.\<close>

definition search ::
  "options \<Rightarrow> filesystem \<Rightarrow> string list \<Rightarrow> string list \<Rightarrow> string list
     \<Rightarrow> pyerror + (string \<times> (kind \<times> (string \<times> entity) list) list) list" where
  "search opts fs matrixcaches params matrices =
     (case search_loop opts fs params
             (if matrices = [''ALL''] then matrixcaches else matrices) [] of
        Inl err \<Rightarrow> Inl err
      | Inr results \<Rightarrow> Inr (filter (\<lambda>(k, v). v \<noteq> []) results))"

section \<open>findTTPOverlap\<close>

text \<open>
  \<open>results[matrixname]['Actors'][candidate] = cache[matrixname]['Actors'][candidate]\<close>
  stores a reference: the dictionary in \<open>results\<close> and the one in \<open>cache\<close> are the same
  object, and the unfolding that follows writes into it. The model keeps the loaded graph
  as the store and \<open>results[matrixname]['Actors']\<close> as the list of its keys; the function
  returns the results together with the graphs as the call leaves them.
\<close>

definition ttp_overlapkeys :: "kind list" where
  "ttp_overlapkeys = [Malwares, Subtechniques, Techniques, Tools]"

text \<open>\<open>candidatecontent\<close>: a relation value that is missing or empty adds nothing.\<close>

definition candidatecontent :: "entity \<Rightarrow> string list" where
  "candidatecontent en =
     concat (map (\<lambda>k. case rels en k of None \<Rightarrow> [] | Some rv \<Rightarrow> relkeys rv) ttp_overlapkeys)"

text \<open>The loop \<open>for ttp in ttps\<close>: an id that is not in the matrix adds no entry.\<close>

definition ttp_unfold_rel :: "graph \<Rightarrow> kind \<Rightarrow> string list \<Rightarrow> (string \<times> summary) list" where
  "ttp_unfold_rel g ttpkey ttps =
     fold (\<lambda>ttp acc. case map_of (g ttpkey) ttp of
                        None \<Rightarrow> acc
                      | Some en \<Rightarrow> AList.update ttp (summary_of en) acc)
          ttps []"

definition ttp_unfold_key :: "graph \<Rightarrow> string \<Rightarrow> kind \<Rightarrow> pyerror + graph" where
  "ttp_unfold_key g actor ttpkey =
     (case map_of (g Actors) actor of
        None \<Rightarrow> Inl KeyError
      | Some en \<Rightarrow>
          (case rels en ttpkey of
             None \<Rightarrow> Inr g
           | Some rv \<Rightarrow>
               if relkeys rv \<noteq> [] then
                 Inr (put g Actors actor
                        (en\<lparr>rels := (rels en)
                               (ttpkey \<mapsto> Unfolded (ttp_unfold_rel g ttpkey (relkeys rv)))\<rparr>))
               else Inr g))"

fun ttp_unfold_keys :: "graph \<Rightarrow> string \<Rightarrow> kind list \<Rightarrow> pyerror + graph" where
  "ttp_unfold_keys g actor [] = Inr g"
| "ttp_unfold_keys g actor (ttpkey # rest) =
     (case ttp_unfold_key g actor ttpkey of
        Inl err \<Rightarrow> Inl err
      | Inr g' \<Rightarrow> ttp_unfold_keys g' actor rest)"

fun ttp_unfold_actors :: "graph \<Rightarrow> string list \<Rightarrow> pyerror + graph" where
  "ttp_unfold_actors g [] = Inr g"
| "ttp_unfold_actors g (actor # rest) =
     (case ttp_unfold_keys g actor ttp_overlapkeys of
        Inl err \<Rightarrow> Inl err
      | Inr g' \<Rightarrow> ttp_unfold_actors g' rest)"

text \<open>The body of \<open>for candidate in cache[matrixname]['Actors'].keys()\<close>.\<close>

definition ttp_candidate ::
  "string list \<Rightarrow> graph \<times> string list \<Rightarrow> string \<Rightarrow> pyerror + graph \<times> string list" where
  "ttp_candidate TTPs s candidate =
     (case map_of (fst s Actors) candidate of
        None \<Rightarrow> Inl KeyError
      | Some en \<Rightarrow>
          (let content = candidatecontent en;
               res = (if content \<noteq> [] \<and> list_all (\<lambda>ttp. ttp \<in> set content) TTPs
                      then (if candidate \<in> set (snd s) then snd s else snd s @ [candidate])
                      else snd s)
           in case ttp_unfold_actors (fst s) res of
                Inl err \<Rightarrow> Inl err
              | Inr g' \<Rightarrow> Inr (g', res)))"

fun ttp_candidates ::
  "string list \<Rightarrow> string list \<Rightarrow> graph \<times> string list \<Rightarrow> pyerror + graph \<times> string list" where
  "ttp_candidates TTPs [] s = Inr s"
| "ttp_candidates TTPs (candidate # rest) s =
     (case ttp_candidate TTPs s candidate of
        Inl err \<Rightarrow> Inl err
      | Inr s' \<Rightarrow> ttp_candidates TTPs rest s')"

text \<open>The value of \<open>results[matrixname]['Actors']\<close>: each key with the object it refers
  to.\<close>

fun deref :: "graph \<Rightarrow> string list \<Rightarrow> pyerror + (string \<times> entity) list" where
  "deref g [] = Inr []"
| "deref g (a # rest) =
     (case map_of (g Actors) a of
        None \<Rightarrow> Inl KeyError
      | Some en \<Rightarrow>
          (case deref g rest of Inl err \<Rightarrow> Inl err | Inr r \<Rightarrow> Inr ((a, en) # r)))"

text \<open>One round of \<open>for matrixname in cache.keys()\<close>: the graph as it is left, and the
  matching actors.\<close>

definition ttp_matrix ::
  "string list \<Rightarrow> graph \<Rightarrow> pyerror + graph \<times> (string \<times> entity) list" where
  "ttp_matrix TTPs g =
     (case ttp_candidates TTPs (map fst (g Actors)) (g, []) of
        Inl err \<Rightarrow> Inl err
      | Inr (g', res) \<Rightarrow>
          (case deref g' res of Inl err \<Rightarrow> Inl err | Inr actors \<Rightarrow> Inr (g', actors)))"

fun ttp_matrices ::
  "string list \<Rightarrow> cache \<Rightarrow> pyerror + cache \<times> (string \<times> (string \<times> entity) list) list" where
  "ttp_matrices TTPs [] = Inr ([], [])"
| "ttp_matrices TTPs ((matrixname, g) # rest) =
     (case ttp_matrix TTPs g of
        Inl err \<Rightarrow> Inl err
      | Inr (g', actors) \<Rightarrow>
          (case ttp_matrices TTPs rest of
             Inl err \<Rightarrow> Inl err
           | Inr (cache', results) \<Rightarrow>
               Inr ((matrixname, g') # cache', (matrixname, actors) # results)))"

text \<open>The query on a loaded cache: the cache as the call leaves it, and the returned
  results (\<open>matrixname \<mapsto> results[matrixname]['Actors']\<close>) without the matrices that have
  no matching actor.\<close>

definition ttp_overlap_on ::
  "string list \<Rightarrow> cache \<Rightarrow> pyerror + cache \<times> (string \<times> (string \<times> entity) list) list" where
  "ttp_overlap_on TTPs cache =
     (case ttp_matrices TTPs cache of
        Inl err \<Rightarrow> Inl err
      | Inr (cache', results) \<Rightarrow> Inr (cache', filter (\<lambda>(m, actors). actors \<noteq> []) results))"

definition findTTPOverlap ::
  "options \<Rightarrow> filesystem \<Rightarrow> string list \<Rightarrow> string list
     \<Rightarrow> pyerror + (string \<times> (string \<times> entity) list) list" where
  "findTTPOverlap opts fs matrixcaches TTPs =
     (case loadCaches opts fs matrixcaches of
        Inl err \<Rightarrow> Inl err
      | Inr cache \<Rightarrow>
          (case ttp_overlap_on TTPs cache of
             Inl err \<Rightarrow> Inl err
           | Inr (cache', results) \<Rightarrow> Inr results))"

section \<open>findActorOverlap\<close>

text \<open>
  The function iterates over a Python \<open>set\<close> of matrix names and turns a \<open>set\<close> of names
  into a list; the order of a set's elements is not specified. The parameter \<open>sorder\<close>
  stands for it: \<open>sorder xs\<close> is the sequence in which the set built from \<open>xs\<close> is
  enumerated.
\<close>

definition actor_overlapkeys :: "kind list" where
  "actor_overlapkeys = [Malwares, Mitigations, Subtechniques, Techniques, Tools]"

text \<open>The first loop: \<open>actor1\<close> and \<open>actor2\<close> map the matrices that hold the actor to the
  actor's entry. The test uses the id without trailing slashes, the subscript the id as
  given.\<close>

definition pick_actor ::
  "graph \<Rightarrow> string \<Rightarrow> string \<Rightarrow> (string \<times> entity) list \<Rightarrow> pyerror + (string \<times> entity) list" where
  "pick_actor g matrixname mitreID actor =
     (case map_of (g Actors) (rstrip_char CHR ''/'' mitreID) of
        None \<Rightarrow> Inr actor
      | Some _ \<Rightarrow>
          (case map_of (g Actors) mitreID of
             None \<Rightarrow> Inl KeyError
           | Some en \<Rightarrow> Inr (AList.update matrixname en actor)))"

fun collect_actors ::
  "string \<Rightarrow> string \<Rightarrow> cache \<Rightarrow> (string \<times> entity) list \<times> (string \<times> entity) list
     \<Rightarrow> pyerror + (string \<times> entity) list \<times> (string \<times> entity) list" where
  "collect_actors mitreID1 mitreID2 [] s = Inr s"
| "collect_actors mitreID1 mitreID2 ((matrixname, g) # rest) s =
     (case pick_actor g matrixname mitreID1 (fst s) of
        Inl err \<Rightarrow> Inl err
      | Inr actor1 \<Rightarrow>
          (case pick_actor g matrixname mitreID2 (snd s) of
             Inl err \<Rightarrow> Inl err
           | Inr actor2 \<Rightarrow> collect_actors mitreID1 mitreID2 rest (actor1, actor2)))"

text \<open>\<open>actor1map\<close>, \<open>actor2map\<close> (the keys of each inner dictionary, in insertion order)
  and \<open>overlap['Actors']\<close> (id \<open>\<mapsto>\<close> name list and description).\<close>

record ov_state =
  actor1map :: "kind \<Rightarrow> string list"
  actor2map :: "kind \<Rightarrow> string list"
  ov_actors :: "(string \<times> string list \<times> string) list"

definition add_entries :: "string list \<Rightarrow> string list \<Rightarrow> string list" where
  "add_entries entries keys =
     fold (\<lambda>entry acc. if entry \<in> set acc then acc else acc @ [entry]) entries keys"

definition absorb_keys :: "entity \<Rightarrow> (kind \<Rightarrow> string list) \<Rightarrow> kind \<Rightarrow> string list" where
  "absorb_keys en amap =
     (\<lambda>k. if k \<in> set actor_overlapkeys then
             (case rels en k of
                None \<Rightarrow> amap k
              | Some rv \<Rightarrow> add_entries (relkeys rv) (amap k))
           else amap k)"

text \<open>\<open>for name in actor['name']\<close>: the items of a list, the characters of a string.\<close>

definition name_items :: "nameval \<Rightarrow> string list" where
  "name_items nm = (case nm of Aliases xs \<Rightarrow> xs | Scalar s \<Rightarrow> map (\<lambda>c. [c]) s)"

definition absorb_actor ::
  "entity \<Rightarrow> string \<Rightarrow> (string \<times> string list \<times> string) list
     \<Rightarrow> (string \<times> string list \<times> string) list" where
  "absorb_actor en mitreID acts =
     map (\<lambda>(k, names, descr).
            if k = mitreID then
              (k, names @ name_items (name en),
               if \<not> substr (description en) descr
               then descr @ strip (description en) @ '' '' else descr)
            else (k, names, descr)) acts"

fun absorb_matrices ::
  "string \<Rightarrow> string \<Rightarrow> (string \<times> entity) list \<Rightarrow> (string \<times> entity) list \<Rightarrow> string list
     \<Rightarrow> ov_state \<Rightarrow> ov_state" where
  "absorb_matrices mitreID1 mitreID2 actor1 actor2 [] st = st"
| "absorb_matrices mitreID1 mitreID2 actor1 actor2 (matrixname # rest) st =
     (let st1 = (case map_of actor1 matrixname of
                   None \<Rightarrow> st
                 | Some en \<Rightarrow>
                     st\<lparr>actor1map := absorb_keys en (actor1map st),
                        ov_actors := absorb_actor en mitreID1 (ov_actors st)\<rparr>);
          st2 = (case map_of actor2 matrixname of
                   None \<Rightarrow> st1
                 | Some en \<Rightarrow>
                     st1\<lparr>actor2map := absorb_keys en (actor2map st1),
                         ov_actors := absorb_actor en mitreID2 (ov_actors st1)\<rparr>)
      in absorb_matrices mitreID1 mitreID2 actor1 actor2 rest st2)"

text \<open>The unfolding of one overlapping key: every matrix that holds the id overwrites
  the entry; an id that no matrix holds gets no entry.\<close>

definition overlap_unfold :: "cache \<Rightarrow> kind \<Rightarrow> string list \<Rightarrow> (string \<times> summary) list" where
  "overlap_unfold cache overlapkey keys =
     fold (\<lambda>key acc.
             fold (\<lambda>(matrixname, g) acc'.
                     case map_of (g overlapkey) key of
                       None \<Rightarrow> acc'
                     | Some en \<Rightarrow> AList.update key (summary_of en) acc')
                  cache acc)
          keys []"

text \<open>\<open>overlap[overlapkey]\<close> at the end: \<open>None\<close> when the key was deleted.\<close>

definition kind_overlap ::
  "cache \<Rightarrow> (kind \<Rightarrow> string list) \<Rightarrow> (kind \<Rightarrow> string list) \<Rightarrow> kind
     \<Rightarrow> (string \<times> summary) list option" where
  "kind_overlap cache m1 m2 overlapkey =
     (if overlapkey \<in> set actor_overlapkeys then
        (let keys = filter (\<lambda>entry. entry \<in> set (m2 overlapkey)) (m1 overlapkey)
         in if keys = [] then None else Some (overlap_unfold cache overlapkey keys))
      else None)"

record overlap =
  ov_Actors :: "(string \<times> string list \<times> string) list"
  ov_Matrices :: "string list"
  ov_kinds :: "kind \<Rightarrow> (string \<times> summary) list option"

definition finish_actor ::
  "(string list \<Rightarrow> string list) \<Rightarrow> string \<Rightarrow> (string \<times> string list \<times> string) list
     \<Rightarrow> (string \<times> string list \<times> string) list" where
  "finish_actor sorder mitreID acts =
     map (\<lambda>(k, names, descr). if k = mitreID then (k, sorder names, strip descr)
                               else (k, names, descr)) acts"

text \<open>The query on a loaded cache. \<open>None\<close> is the bare \<open>return\<close>.\<close>

definition actor_overlap_on ::
  "(string list \<Rightarrow> string list) \<Rightarrow> cache \<Rightarrow> string \<Rightarrow> string \<Rightarrow> pyerror + overlap option" where
  "actor_overlap_on sorder cache mitreID1 mitreID2 =
     (case collect_actors mitreID1 mitreID2 cache ([], []) of
        Inl err \<Rightarrow> Inl err
      | Inr (actor1, actor2) \<Rightarrow>
          (let matrices = sorder (map fst actor1 @ map fst actor2);
               st0 = \<lparr>actor1map = (\<lambda>_. []), actor2map = (\<lambda>_. []),
                      ov_actors = AList.update mitreID2 ([], [])
                                    (AList.update mitreID1 ([], []) [])\<rparr>;
               st = absorb_matrices mitreID1 mitreID2 actor1 actor2 matrices st0;
               kinds = kind_overlap cache (actor1map st) (actor2map st)
           in if list_ex (\<lambda>k. kinds k \<noteq> None) actor_overlapkeys then
                Inr (Some \<lparr>ov_Actors = finish_actor sorder mitreID2
                                         (finish_actor sorder mitreID1 (ov_actors st)),
                           ov_Matrices = matrices,
                           ov_kinds = kinds\<rparr>)
              else Inr None))"

definition findActorOverlap ::
  "(string list \<Rightarrow> string list) \<Rightarrow> options \<Rightarrow> filesystem \<Rightarrow> string list \<Rightarrow> string \<Rightarrow> string
     \<Rightarrow> pyerror + overlap option" where
  "findActorOverlap sorder opts fs matrixcaches mitreID1 mitreID2 =
     (case loadCaches opts fs matrixcaches of
        Inl err \<Rightarrow> Inl err
      | Inr cache \<Rightarrow> actor_overlap_on sorder cache mitreID1 mitreID2)"

section \<open>Reading a graph\<close>

text \<open>The ids stored under \<open>g[k][i][k']\<close> (none when the entity or the key is
  missing), and the names of the entities of a kind.\<close>

definition rel_ids :: "graph \<Rightarrow> kind \<Rightarrow> string \<Rightarrow> kind \<Rightarrow> string list" where
  "rel_ids g k i k' =
     (case map_of (g k) i of
        None \<Rightarrow> []
      | Some en \<Rightarrow> (case rels en k' of None \<Rightarrow> [] | Some rv \<Rightarrow> relkeys rv))"

definition names_in :: "graph \<Rightarrow> kind \<Rightarrow> (string \<times> nameval) list" where
  "names_in g k = map (\<lambda>(i, en). (i, name en)) (g k)"

definition rel_at :: "graph \<Rightarrow> kind \<Rightarrow> string \<Rightarrow> kind \<Rightarrow> relval option" where
  "rel_at g k i k' = (case map_of (g k) i of None \<Rightarrow> None | Some en \<Rightarrow> rels en k')"

section \<open>A small bundle\<close>

definition blank_obj :: stixobj where
  "blank_obj =
     \<lparr>o_type = None, o_id = None, o_name = None, o_description = None, o_aliases = None,
      o_x_mitre_aliases = None, o_external_references = None, o_kill_chain_phases = None,
      o_x_mitre_is_subtechnique = None, o_revoked = None, o_x_mitre_deprecated = None,
      o_relationship_type = None, o_source_ref = None, o_target_ref = None\<rparr>"

definition attack_ref :: "string \<Rightarrow> extref" where
  "attack_ref i = \<lparr>source_name = Some ''mitre-attack'', external_id = Some i\<rparr>"

definition capec_ref :: "string \<Rightarrow> extref" where
  "capec_ref i = \<lparr>source_name = Some ''capec'', external_id = Some i\<rparr>"

definition ex_obj :: "string \<Rightarrow> string \<Rightarrow> string \<Rightarrow> extref list \<Rightarrow> stixobj" where
  "ex_obj ty sid nm refs =
     blank_obj\<lparr>o_type := Some ty, o_id := Some sid, o_name := Some nm,
               o_description := Some ''text'', o_external_references := Some refs\<rparr>"

definition ex_uses :: "string \<Rightarrow> string \<Rightarrow> string \<Rightarrow> stixobj" where
  "ex_uses sid src tgt =
     blank_obj\<lparr>o_type := Some ''relationship'', o_id := Some sid,
               o_relationship_type := Some ''uses'', o_source_ref := Some src,
               o_target_ref := Some tgt\<rparr>"

definition ex_opts :: "bool \<Rightarrow> bool \<Rightarrow> options" where
  "ex_opts r d =
     \<lparr>opt_matrix = ''Enterprise'', opt_revoked = r, opt_deprecated = d,
      opt_cachedir = ''matrices'', opt_cacheaffix = ''.cache''\<rparr>"

definition ex_tactic :: stixobj where
  "ex_tactic = ex_obj ''x-mitre-tactic'' ''x-mitre-tactic--1'' ''Initial Access''
                 [attack_ref ''TA0001'']"

definition ex_technique :: stixobj where
  "ex_technique =
     (ex_obj ''attack-pattern'' ''attack-pattern--1'' ''Phishing'' [attack_ref ''T1566''])
       \<lparr>o_kill_chain_phases :=
          Some [\<lparr>kill_chain_name = Some ''mitre-attack'',
                 phase_name = Some ''initial-access''\<rparr>]\<rparr>"

definition ex_old_technique :: stixobj where
  "ex_old_technique =
     (ex_obj ''attack-pattern'' ''attack-pattern--2'' ''Graphical User Interface''
        [attack_ref ''T1061''])\<lparr>o_x_mitre_deprecated := Some True\<rparr>"

definition ex_actor :: stixobj where
  "ex_actor =
     (ex_obj ''intrusion-set'' ''intrusion-set--1'' ''Dragonfly'' [attack_ref ''G0035''])
       \<lparr>o_aliases := Some [''Dragonfly'', ''Energetic Bear'']\<rparr>"

definition ex_plain_actor :: stixobj where
  "ex_plain_actor = ex_obj ''intrusion-set'' ''intrusion-set--2'' ''Moafee'' [attack_ref ''G0002'']"

definition ex_tool :: stixobj where
  "ex_tool =
     (ex_obj ''tool'' ''tool--1'' ''Mimikatz'' [attack_ref ''S0002''])
       \<lparr>o_x_mitre_aliases := Some [''Mimikatz'']\<rparr>"

definition ex_bundle :: "stixobj list" where
  "ex_bundle =
     [ex_tactic, ex_technique, ex_old_technique, ex_actor, ex_plain_actor, ex_tool,
      ex_uses ''relationship--1'' ''intrusion-set--1'' ''attack-pattern--1'',
      ex_uses ''relationship--2'' ''intrusion-set--1'' ''attack-pattern--2'',
      ex_uses ''relationship--3'' ''intrusion-set--1'' ''tool--1'',
      ex_uses ''relationship--4'' ''intrusion-set--2'' ''tool--1'']"

text \<open>The cache that \<open>Transform\<close> makes of the bundle when deprecated records are left
  out, and a directory that holds it as the file of the matrix Enterprise.\<close>

definition ex_cache :: cache where
  "ex_cache = (case Transform (ex_opts True False) ex_bundle of Inl _ \<Rightarrow> [] | Inr c \<Rightarrow> c)"

definition ex_fs :: filesystem where
  "ex_fs = (\<lambda>p. if p = ''matrices/Enterprise.cache'' then Some (Unpickles (Some ex_cache))
                else None)"

text \<open>Projections of the results of the queries: the hits of a search as
  (matrix, kind, id), and a relation value of an actor in the result of findTTPOverlap.\<close>

definition hits ::
  "(string \<times> (kind \<times> (string \<times> entity) list) list) list \<Rightarrow> (string \<times> kind \<times> string) list" where
  "hits r =
     concat (map (\<lambda>(m, ks). concat (map (\<lambda>(k, es). map (\<lambda>(i, en). (m, k, i)) es) ks)) r)"

definition result_rel ::
  "(string \<times> (string \<times> entity) list) list \<Rightarrow> string \<Rightarrow> string \<Rightarrow> kind \<Rightarrow> relval option" where
  "result_rel r m a k =
     (case map_of r m of
        None \<Rightarrow> None
      | Some actors \<Rightarrow> (case map_of actors a of None \<Rightarrow> None | Some en \<Rightarrow> rels en k))"

section \<open>Notions used in the statements\<close>

text \<open>The pass that creates the entities of a kind, and a record with its two flags
  taken away.\<close>

definition create_step :: "kind \<Rightarrow> options \<Rightarrow> tstate \<Rightarrow> stixobj \<Rightarrow> pyerror + tstate" where
  "create_step k =
     (case k of Tactics \<Rightarrow> tactic_step | Techniques \<Rightarrow> technique_step
      | Subtechniques \<Rightarrow> subtechnique_step | Actors \<Rightarrow> actor_step
      | Malwares \<Rightarrow> malware_step | Mitigations \<Rightarrow> mitigation_step | Tools \<Rightarrow> tool_step)"

definition clear_flags :: "stixobj \<Rightarrow> stixobj" where
  "clear_flags e = e\<lparr>o_revoked := None, o_x_mitre_deprecated := None\<rparr>"

text \<open>The test of the candidate loop, read off the graph.\<close>

definition qualifies :: "string list \<Rightarrow> graph \<Rightarrow> string \<Rightarrow> bool" where
  "qualifies TTPs g a =
     (case map_of (g Actors) a of
        None \<Rightarrow> False
      | Some en \<Rightarrow>
          candidatecontent en \<noteq> [] \<and> list_all (\<lambda>ttp. ttp \<in> set (candidatecontent en)) TTPs)"

text \<open>The ids that an actor holds under a kind in the matrices of a cache, one matrix
  after the other; whether some matrix of the cache holds an entity of a kind under an
  id; the relation ids of an entity; and the entries of an actor, matrix by matrix.\<close>

definition union_ids :: "cache \<Rightarrow> string \<Rightarrow> kind \<Rightarrow> string list" where
  "union_ids cache a k = concat (map (\<lambda>(m, g). rel_ids g Actors a k) cache)"

definition resolves :: "cache \<Rightarrow> kind \<Rightarrow> string \<Rightarrow> bool" where
  "resolves cache k i = list_ex (\<lambda>(m, g). map_of (g k) i \<noteq> None) cache"

definition ids_of :: "entity \<Rightarrow> kind \<Rightarrow> string list" where
  "ids_of en k = (case rels en k of None \<Rightarrow> [] | Some rv \<Rightarrow> relkeys rv)"

definition picks :: "cache \<Rightarrow> string \<Rightarrow> (string \<times> entity) list" where
  "picks cache a =
     concat (map (\<lambda>(m, g). case map_of (g Actors) a of None \<Rightarrow> [] | Some en \<Rightarrow> [(m, en)]) cache)"

text \<open>A cache in which an actor is stored under an id that ends in a slash.\<close>

definition ex_slash_cache :: cache where
  "ex_slash_cache =
     (case Transform (ex_opts True True)
             [ex_technique,
              ex_obj ''intrusion-set'' ''intrusion-set--9'' ''Slash'' [attack_ref ''G0099/''],
              ex_uses ''relationship--9'' ''intrusion-set--9'' ''attack-pattern--1''] of
        Inl _ \<Rightarrow> [] | Inr c \<Rightarrow> c)"

text \<open>The relation keys that the dictionary literals of \<open>Transform\<close> give to the
  entities of each kind.\<close>

definition relation_keys :: "kind \<Rightarrow> kind list" where
  "relation_keys k =
     (case k of
        Tactics \<Rightarrow> [Techniques]
      | Techniques \<Rightarrow> [Actors, Malwares, Mitigations, Subtechniques, Tools]
      | Subtechniques \<Rightarrow> [Actors, Malwares, Mitigations, Subtechniques, Tools]
      | Actors \<Rightarrow> [Malwares, Subtechniques, Techniques, Tools]
      | Malwares \<Rightarrow> [Actors, Subtechniques, Techniques]
      | Mitigations \<Rightarrow> [Subtechniques, Techniques]
      | Tools \<Rightarrow> [Actors, Subtechniques, Techniques])"

text \<open>An entity of a kind has exactly these keys, each with a list of ids.\<close>

definition shaped :: "kind \<Rightarrow> entity \<Rightarrow> bool" where
  "shaped k en =
     (\<forall>k'. if k' \<in> set (relation_keys k) then (\<exists>xs. rels en k' = Some (Ids xs))
           else rels en k' = None)"

definition wf_graph :: "graph \<Rightarrow> bool" where
  "wf_graph g = (\<forall>k. \<forall>p \<in> set (g k). shaped k (snd p))"

text \<open>The two containment lists, which the creation passes fill: the techniques of a
  tactic and the subtechniques of a technique.\<close>

definition contained :: "kind \<Rightarrow> kind \<Rightarrow> bool" where
  "contained k k' = ((k = Tactics \<and> k' = Techniques) \<or> (k = Techniques \<and> k' = Subtechniques))"

text \<open>What holds of every entity when the creation passes are done: the lists other
  than the containment lists are empty, and the technique list of a tactic has no
  duplicates.\<close>

definition unlinked :: "kind \<Rightarrow> entity \<Rightarrow> bool" where
  "unlinked k en =
     (shaped k en \<and> (\<forall>k'. \<not> contained k k' \<longrightarrow> ids_of en k' = [])
      \<and> (k = Tactics \<longrightarrow> distinct (ids_of en Techniques)))"

definition created :: "graph \<Rightarrow> bool" where
  "created g = (\<forall>k. \<forall>p \<in> set (g k). unlinked k (snd p))"

text \<open>What holds of the graph when the links are made: outside the two containment
  lists, two entities of the graph name each other or neither names the other; and no
  list but the subtechnique list of a technique has a duplicate.\<close>

definition symmetric_links :: "graph \<Rightarrow> bool" where
  "symmetric_links g =
     (\<forall>ks kt s t. \<not> contained ks kt \<and> \<not> contained kt ks
         \<and> s \<in> fst ` set (g ks) \<and> t \<in> fst ` set (g kt)
        \<longrightarrow> (t \<in> set (rel_ids g ks s kt) \<longleftrightarrow> s \<in> set (rel_ids g kt t ks)))"

definition duplicate_free :: "graph \<Rightarrow> bool" where
  "duplicate_free g =
     (\<forall>k i k'. \<not> (k = Techniques \<and> k' = Subtechniques) \<longrightarrow> distinct (rel_ids g k i k'))"

definition linked :: "graph \<Rightarrow> bool" where
  "linked g = (wf_graph g \<and> symmetric_links g \<and> duplicate_free g)"

text \<open>The graph of the example cache, and the records of a technique and of one of its
  subtechniques.\<close>

definition ex_graph :: graph where
  "ex_graph = (case ex_cache of [] \<Rightarrow> (\<lambda>_. []) | (m, g) # _ \<Rightarrow> g)"

definition ex_parent :: stixobj where
  "ex_parent = ex_obj ''attack-pattern'' ''attack-pattern--3'' ''Abuse Elevation Control Mechanism''
                 [attack_ref ''T1548'']"

definition ex_sub :: stixobj where
  "ex_sub =
     (ex_obj ''attack-pattern'' ''attack-pattern--4'' ''Setuid and Setgid''
        [attack_ref ''T1548.001''])\<lparr>o_x_mitre_is_subtechnique := Some True\<rparr>"

text \<open>A reference that the loop of \<open>Transform\<close> takes the id from.\<close>

definition qualifying :: "extref \<Rightarrow> bool" where
  "qualifying r =
     (truthy (external_id r) \<and>
      (case source_name r of None \<Rightarrow> False | Some sn \<Rightarrow> substr ''attack'' (lower sn)))"

text \<open>The form of the name that each pass gives to the entities of its kind: a string,
  the list \<open>x_mitre_aliases\<close>, or for an actor the non-empty list \<open>aliases\<close> or else the
  string \<open>name\<close>.\<close>

definition named :: "kind \<Rightarrow> entity \<Rightarrow> bool" where
  "named k en =
     (case name en of
        Scalar s \<Rightarrow> k \<noteq> Malwares \<and> k \<noteq> Tools
      | Aliases xs \<Rightarrow> k = Malwares \<or> k = Tools \<or> (k = Actors \<and> xs \<noteq> []))"

definition all_named :: "graph \<Rightarrow> bool" where
  "all_named g = (\<forall>k. \<forall>p \<in> set (g k). named k (snd p))"

text \<open>The type test of the pass that creates the entities of a kind.\<close>

definition of_kind :: "kind \<Rightarrow> stixobj \<Rightarrow> bool" where
  "of_kind K e =
     (case K of
        Tactics \<Rightarrow> has_type e ''x-mitre-tactic''
      | Techniques \<Rightarrow> has_type e ''attack-pattern'' \<and> \<not> flag (o_x_mitre_is_subtechnique e)
      | Subtechniques \<Rightarrow> has_type e ''attack-pattern'' \<and> flag (o_x_mitre_is_subtechnique e)
      | Actors \<Rightarrow> has_type e ''intrusion-set''
      | Malwares \<Rightarrow> has_type e ''malware''
      | Mitigations \<Rightarrow> has_type e ''course-of-action''
      | Tools \<Rightarrow> has_type e ''tool'')"

text \<open>The whole guard of that pass: its filter and its type test.\<close>

definition pass_guard :: "kind \<Rightarrow> options \<Rightarrow> stixobj \<Rightarrow> bool" where
  "pass_guard K opts e =
     ((if K = Malwares \<or> K = Tools then eligible_unrevoked opts e else eligible opts e)
      \<and> of_kind K e)"

text \<open>The id that the reference loop assigns from the record's own references, when
  it assigns one: the loop run with \<open>id\<close> unbound.\<close>

definition own_id :: "stixobj \<Rightarrow> string option" where
  "own_id e =
     (case o_external_references e of
        None \<Rightarrow> None
      | Some refs \<Rightarrow> (case scan_refs refs None of Inl _ \<Rightarrow> None | Inr r \<Rightarrow> r))"

text \<open>The creation passes as a loop over the kinds.\<close>

fun run_kinds :: "options \<Rightarrow> stixobj list \<Rightarrow> kind list \<Rightarrow> tstate \<Rightarrow> pyerror + tstate" where
  "run_kinds opts objs [] st = Inr st"
| "run_kinds opts objs (K # Ks) st =
     (case run_pass (create_step K opts) objs st of
        Inl err \<Rightarrow> Inl err
      | Inr st' \<Rightarrow> run_kinds opts objs Ks st')"

text \<open>A bundle with a tool, a revoked tool, a revoked mitigation and a deprecated
  technique, and the graph that \<open>Transform\<close> makes of it when revoked and deprecated
  records are both included.\<close>

definition ex_revoked_tool :: stixobj where
  "ex_revoked_tool =
     (ex_obj ''tool'' ''tool--2'' ''Old Tool'' [attack_ref ''S0100''])
       \<lparr>o_x_mitre_aliases := Some [''Old Tool''], o_revoked := Some True\<rparr>"

definition ex_revoked_mitigation :: stixobj where
  "ex_revoked_mitigation =
     (ex_obj ''course-of-action'' ''course-of-action--1'' ''Old Mitigation''
        [attack_ref ''M1000''])\<lparr>o_revoked := Some True\<rparr>"

definition ex_policy_bundle :: "stixobj list" where
  "ex_policy_bundle = [ex_tool, ex_revoked_tool, ex_revoked_mitigation, ex_old_technique]"

definition ex_policy_graph :: graph where
  "ex_policy_graph =
     (case Transform_graph (ex_opts True True) ex_policy_bundle of
        Inl _ \<Rightarrow> (\<lambda>_. []) | Inr g \<Rightarrow> g)"

section \<open>Search is case-sensitive on scalar fields\<close>

text \<open>
  Claim C2 (the scalar branch of the search is as case-insensitive as the list branch)
  does not hold of the code. The cache holds the technique T1566 with the scalar name
  \<open>Phishing\<close> and the actor G0035 with the alias list \<open>[Dragonfly, Energetic Bear]\<close>. The
  term \<open>phishing\<close> occurs in the technique's name up to case, yet the search for it finds
  nothing; the term \<open>dragonfly\<close> finds the actor.
\<close>

theorem search_scalar_field_case_sensitive:
  "map (\<lambda>(m, g). names_in g Techniques) ex_cache = [[(''T1566'', Scalar ''Phishing'')]]
   \<and> substr (lower ''phishing'') (lower ''Phishing'')
   \<and> search (ex_opts True False) ex_fs [''Enterprise''] [''phishing''] [''Enterprise''] = Inr []
   \<and> map_sum id hits
        (search (ex_opts True False) ex_fs [''Enterprise''] [''dragonfly''] [''Enterprise''])
       = Inr [(''Enterprise'', Actors, ''G0035'')]"
  by code_simp

section \<open>A record without an ATT&CK reference takes over the previous id\<close>

text \<open>
  Claim C3 (a record with no ATT&CK reference is dropped, and the id is that of the first
  matching reference) does not hold of the code. The tactic Impact has only a CAPEC
  reference: it is stored under the id of the tactic before it and replaces that one.
  When such a record comes first, \<open>Transform\<close> ends with UnboundLocalError. With two
  matching references the last one gives the id.
\<close>

theorem transform_reuses_previous_id:
  "map_sum id (\<lambda>g. names_in g Tactics)
     (Transform_graph (ex_opts True True)
        [ex_obj ''x-mitre-tactic'' ''x-mitre-tactic--1'' ''Persistence'' [attack_ref ''TA0003''],
         ex_obj ''x-mitre-tactic'' ''x-mitre-tactic--2'' ''Impact'' [capec_ref ''CAPEC-1'']])
     = Inr [(''TA0003'', Scalar ''Impact'')]
   \<and> map_sum id (\<lambda>g. names_in g Tactics)
       (Transform_graph (ex_opts True True)
          [ex_obj ''x-mitre-tactic'' ''x-mitre-tactic--2'' ''Impact'' [capec_ref ''CAPEC-1'']])
     = Inl UnboundLocalError
   \<and> map_sum id (\<lambda>g. names_in g Tactics)
       (Transform_graph (ex_opts True True)
          [ex_obj ''x-mitre-tactic'' ''x-mitre-tactic--1'' ''Persistence''
             [attack_ref ''TA0003'', attack_ref ''TA0040'']])
     = Inr [(''TA0040'', Scalar ''Persistence'')]"
  by code_simp

section \<open>findTTPOverlap omits ids that do not resolve\<close>

text \<open>
  Claim C4 (findTTPOverlap unfolds as the search does, with a placeholder for an id that
  is not in the matrix) does not hold of the code. The actor G0035 uses the techniques
  T1566 and T1061; T1061 is deprecated and not in the matrix. \<open>unfoldKeys\<close> gives T1061
  the placeholder, findTTPOverlap leaves it out.
\<close>

theorem ttp_overlap_omits_unresolved:
  "map (\<lambda>(m, g). rel_ids g Actors ''G0035'' Techniques) ex_cache = [[''T1566'', ''T1061'']]
   \<and> map_sum id (\<lambda>en. rels en Techniques) (unfoldKeys ex_cache ''Enterprise'' Actors ''G0035'')
       = Inr (Some (Unfolded
           [(''T1566'', \<lparr>s_name = Scalar ''Phishing'', s_description = ''text''\<rparr>),
            (''T1061'', \<lparr>s_name = Scalar ''T1061'',
                         s_description = ''*** DEPRECATED OR REVOKED TECHNIQUE ***''\<rparr>)]))
   \<and> map_sum id (\<lambda>r. result_rel r ''Enterprise'' ''G0035'' Techniques)
       (findTTPOverlap (ex_opts True False) ex_fs [''Enterprise''] [])
       = Inr (Some (Unfolded
           [(''T1566'', \<lparr>s_name = Scalar ''Phishing'', s_description = ''text''\<rparr>)]))"
  by code_simp

section \<open>findTTPOverlap writes into the loaded graph\<close>

text \<open>
  Claim C8 (the queries leave the graphs they read unchanged) does not hold of
  findTTPOverlap. Before the call the actor G0035 of the loaded graph holds the list of
  its technique ids; after the call the same entry holds a dictionary, without T1061.
\<close>

theorem ttp_overlap_mutates_cache:
  "map (\<lambda>(m, g). rel_at g Actors ''G0035'' Techniques) ex_cache
     = [Some (Ids [''T1566'', ''T1061''])]
   \<and> map_sum id (\<lambda>(c, r). map (\<lambda>(m, g). rel_at g Actors ''G0035'' Techniques) c)
       (ttp_overlap_on [] ex_cache)
     = Inr [Some (Unfolded
         [(''T1566'', \<lparr>s_name = Scalar ''Phishing'', s_description = ''text''\<rparr>)])]"
  by code_simp

section \<open>The name of an actor without aliases is a string\<close>

text \<open>
  Claim C9 (the name of every actor is a list, also for a record with no \<open>aliases\<close>) does
  not hold of the code: the actor G0002 has no \<open>aliases\<close> field and its name is the
  string \<open>Moafee\<close>, next to the actor G0035 with its alias list. findActorOverlap reads
  the name as a list: for G0002 it collects the single characters.
\<close>

theorem actor_without_aliases_scalar_name:
  "map (\<lambda>(m, g). names_in g Actors) ex_cache
     = [[(''G0035'', Aliases [''Dragonfly'', ''Energetic Bear'']),
         (''G0002'', Scalar ''Moafee'')]]
   \<and> map_sum id (map_option ov_Actors) (actor_overlap_on remdups ex_cache ''G0002'' ''G0002'')
       = Inr (Some [(''G0002'', [''M'', ''o'', ''a'', ''f'', ''e''], ''text'')])"
  by code_simp

section \<open>Loading a cache file can raise\<close>

text \<open>
  Claim C10 (loading an absent or undecodable cache gives the absent result and never an
  error) does not hold of the code. A file whose decoding raises EOFError (an empty
  file) makes \<open>loadCache\<close> raise it: the handler names ValueError and FileNotFoundError
  only. A missing file makes \<open>loadCache\<close> return \<open>None\<close>, and \<open>loadCaches\<close> then raises
  TypeError.
\<close>

theorem load_cache_raises:
  "loadCache (ex_opts True True)
     (\<lambda>p. if p = ''matrices/Enterprise.cache'' then Some (UnpickleRaises EOFError) else None)
     ''Enterprise'' = Inl EOFError
   \<and> loadCache (ex_opts True True) (\<lambda>p. None) ''Enterprise'' = Inr None
   \<and> loadCaches (ex_opts True True) (\<lambda>p. None) [''Enterprise''] = Inl TypeError"
  by code_simp

section \<open>The filter policy of the creation passes\<close>

lemma create_step_policy:
  "create_step K opts st e =
     (if (flag (o_revoked e) \<and> (K = Malwares \<or> K = Tools \<or> \<not> opt_revoked opts))
         \<or> (flag (o_x_mitre_deprecated e) \<and> \<not> opt_deprecated opts)
      then Inr st
      else create_step K opts st (clear_flags e))"
  by (cases K)
     (auto simp: create_step_def clear_flags_def tactic_step_def technique_step_def
        subtechnique_step_def actor_step_def malware_step_def mitigation_step_def tool_step_def
        eligible_def eligible_unrevoked_def has_type_def flag_def description_or_default_def
        cong: option.case_cong sum.case_cong list.case_cong)

text \<open>
  A record is excluded from the pass of kind \<open>K\<close> when it is revoked and \<open>K\<close> is Malwares
  or Tools or \<open>options.revoked\<close> is false, or when it is deprecated and
  \<open>options.deprecated\<close> is false. The pass treats the bundle as the bundle from which the
  excluded records are removed, the flags of all others being erased: an excluded record
  changes nothing, not even the id that the next record may take over.
\<close>

lemma filter_policy:
  "run_pass (create_step K opts) objs st =
     run_pass (create_step K opts)
       (map clear_flags
          (filter (\<lambda>e. \<not> (flag (o_revoked e) \<and> (K = Malwares \<or> K = Tools \<or> \<not> opt_revoked opts))
                     \<and> \<not> (flag (o_x_mitre_deprecated e) \<and> \<not> opt_deprecated opts)) objs)) st"
proof (induction objs arbitrary: st)
  case Nil
  show ?case by simp
next
  case (Cons e es)
  show ?case
  proof (cases "(flag (o_revoked e) \<and> (K = Malwares \<or> K = Tools \<or> \<not> opt_revoked opts))
         \<or> (flag (o_x_mitre_deprecated e) \<and> \<not> opt_deprecated opts)")
    case True
    then have "create_step K opts st e = Inr st"
      using create_step_policy [of K opts st e] by simp
    with True Cons.IH show ?thesis by auto
  next
    case False
    have eq: "create_step K opts st e = create_step K opts st (clear_flags e)"
      by (subst create_step_policy) (use False in auto)
    have "run_pass (create_step K opts) (e # es) st =
            (case create_step K opts st (clear_flags e) of
               Inl err \<Rightarrow> Inl err
             | Inr st' \<Rightarrow> run_pass (create_step K opts) es st')"
      by (simp add: eq)
    also have "\<dots> = run_pass (create_step K opts)
       (clear_flags e # map clear_flags
          (filter (\<lambda>e. \<not> (flag (o_revoked e) \<and> (K = Malwares \<or> K = Tools \<or> \<not> opt_revoked opts))
                     \<and> \<not> (flag (o_x_mitre_deprecated e) \<and> \<not> opt_deprecated opts)) es)) st"
      by (simp add: Cons.IH split: sum.splits)
    finally show ?thesis using False by simp
  qed
qed

subsection \<open>Which records the graph holds\<close>

lemma scan_refs_from:
  "scan_refs refs cur =
     (case scan_refs refs None of
        Inl err \<Rightarrow> Inl err
      | Inr None \<Rightarrow> Inr cur
      | Inr (Some i) \<Rightarrow> Inr (Some i))"
proof (induction refs arbitrary: cur)
  case Nil
  show ?case by simp
next
  case (Cons r rs)
  show ?case
  proof (cases "truthy (external_id r)")
    case False
    then show ?thesis using Cons.IH [of cur] by simp
  next
    case True
    then obtain i where i: "external_id r = Some i"
      by (auto simp: truthy_def split: option.splits)
    show ?thesis
    proof (cases "source_name r")
      case None
      then show ?thesis using True by simp
    next
      case (Some sn)
      show ?thesis
      proof (cases "substr ''attack'' (lower sn)")
        case False
        then show ?thesis using True Some Cons.IH [of cur] by simp
      next
        case hit: True
        have "scan_refs (r # rs) cur = scan_refs rs (Some i)"
          using True Some hit i by simp
        moreover have "scan_refs (r # rs) None = scan_refs rs (Some i)"
          using True Some hit i by simp
        moreover have "scan_refs rs (Some i) =
           (case scan_refs rs None of
              Inl err \<Rightarrow> Inl err
            | Inr None \<Rightarrow> Inr (Some i)
            | Inr (Some j) \<Rightarrow> Inr (Some j))"
          by (rule Cons.IH)
        ultimately show ?thesis
          by (simp split: sum.splits option.splits)
      qed
    qed
  qed
qed

lemma scan_refs_own:
  assumes "o_external_references e = Some refs"
      and "scan_refs refs cur = Inr (Some i)"
  shows "own_id e = Some i \<or> (own_id e = None \<and> cur = Some i)"
  using assms scan_refs_from [of refs cur]
  by (auto simp: own_id_def split: sum.splits option.splits)

lemma scan_sub_refs_fst:
  "scan_sub_refs techs refs (cid, ct) = Inr (rid, rt) \<Longrightarrow> scan_refs refs cid = Inr rid"
proof (induction refs arbitrary: cid ct)
  case Nil
  then show ?case by simp
next
  case (Cons r rs)
  show ?case
  proof (cases "truthy (external_id r)")
    case False
    then show ?thesis using Cons.prems Cons.IH [of cid ct] by simp
  next
    case True
    then obtain i where i: "external_id r = Some i"
      by (auto simp: truthy_def split: option.splits)
    show ?thesis
    proof (cases "source_name r")
      case None
      then show ?thesis using True Cons.prems by simp
    next
      case (Some sn)
      show ?thesis
      proof (cases "substr ''attack'' (lower sn)")
        case False
        then show ?thesis using True Some Cons.prems Cons.IH [of cid ct] by simp
      next
        case hit: True
        from Cons.prems True Some hit i
        have "scan_sub_refs techs rs (Some i, Some (before_dot i)) = Inr (rid, rt)"
          by (simp split: option.splits)
        then have "scan_refs rs (Some i) = Inr rid"
          by (rule Cons.IH)
        then show ?thesis using True Some hit i by simp
      qed
    qed
  qed
qed

lemma keys_of_put:
  "fst ` set (put g K i en K') =
     (if K' = K then insert i (fst ` set (g K)) else fst ` set (g K'))"
  by (auto simp: put_def dom_update)

lemma tactics_add_keys:
  "tactics_add i ph tacs = Inr tacs' \<Longrightarrow> map fst tacs' = map fst tacs"
proof (induction tacs arbitrary: tacs')
  case Nil
  then show ?case by simp
next
  case (Cons p rest)
  obtain t en where p: "p = (t, en)" by (cases p)
  from Cons.prems p obtain en' rest' where
    r: "tactics_add i ph rest = Inr rest'" and t: "tacs' = (t, en') # rest'"
    by (auto split: nameval.splits sum.splits if_splits)
  from Cons.IH [OF r] t p show ?case by simp
qed

lemma phases_loop_keys:
  "phases_loop i ps tacs = Inr tacs' \<Longrightarrow> map fst tacs' = map fst tacs"
proof (induction ps arbitrary: tacs)
  case Nil
  then show ?case by simp
next
  case (Cons p ps)
  show ?case
  proof (cases "kill_chain_name p")
    case None
    then show ?thesis using Cons.prems by simp
  next
    case kc: (Some kcn)
    show ?thesis
    proof (cases "phase_name p")
      case None
      then show ?thesis using kc Cons.prems Cons.IH [of tacs] by simp
    next
      case (Some ph)
      show ?thesis
      proof (cases "substr ''attack'' kcn \<and> ph \<noteq> []")
        case False
        then show ?thesis using kc Some Cons.prems Cons.IH [of tacs] by auto
      next
        case True
        with kc Some Cons.prems obtain tacs1 where
          a: "tactics_add i (capwords (replace_dash ph)) tacs = Inr tacs1"
          and l: "phases_loop i ps tacs1 = Inr tacs'"
          by (auto split: sum.splits)
        from Cons.IH [OF l] tactics_add_keys [OF a] show ?thesis by simp
      qed
    qed
  qed
qed

lemma tactic_step_keys:
  assumes "tactic_step opts st e = Inr st'"
  shows "(\<forall>K'. K' \<noteq> Tactics \<longrightarrow> fst ` set (matrix st' K') = fst ` set (matrix st K'))
       \<and> (if pass_guard Tactics opts e
            then \<exists>i. fst ` set (matrix st' Tactics) = insert i (fst ` set (matrix st Tactics))
                     \<and> (own_id e = Some i \<or> own_id e = None)
            else fst ` set (matrix st' Tactics) = fst ` set (matrix st Tactics))"
proof (cases "pass_guard Tactics opts e")
  case False
  then have "st' = st"
    using assms by (auto simp: tactic_step_def pass_guard_def of_kind_def split: if_splits)
  with False show ?thesis by simp
next
  case True
  with assms obtain refs i en where
    r: "o_external_references e = Some refs" and s: "scan_refs refs (cur_id st) = Inr (Some i)"
    and m: "matrix st' = put (matrix st) Tactics i en"
    by (auto simp: tactic_step_def pass_guard_def of_kind_def
          split: option.splits sum.splits if_splits)
  from scan_refs_own [OF r s] m True show ?thesis
    by (auto simp: keys_of_put)
qed

lemma actor_step_keys:
  assumes "actor_step opts st e = Inr st'"
  shows "(\<forall>K'. K' \<noteq> Actors \<longrightarrow> fst ` set (matrix st' K') = fst ` set (matrix st K'))
       \<and> (if pass_guard Actors opts e
            then \<exists>i. fst ` set (matrix st' Actors) = insert i (fst ` set (matrix st Actors))
                     \<and> (own_id e = Some i \<or> own_id e = None)
            else fst ` set (matrix st' Actors) = fst ` set (matrix st Actors))"
proof (cases "pass_guard Actors opts e")
  case False
  then have "st' = st"
    using assms by (auto simp: actor_step_def pass_guard_def of_kind_def split: if_splits)
  with False show ?thesis by simp
next
  case True
  with assms obtain refs i en where
    r: "o_external_references e = Some refs" and s: "scan_refs refs (cur_id st) = Inr (Some i)"
    and m: "matrix st' = put (matrix st) Actors i en"
    by (auto simp: actor_step_def pass_guard_def of_kind_def
          split: option.splits sum.splits if_splits)
  from scan_refs_own [OF r s] m True show ?thesis
    by (auto simp: keys_of_put)
qed

lemma malware_step_keys:
  assumes "malware_step opts st e = Inr st'"
  shows "(\<forall>K'. K' \<noteq> Malwares \<longrightarrow> fst ` set (matrix st' K') = fst ` set (matrix st K'))
       \<and> (if pass_guard Malwares opts e
            then \<exists>i. fst ` set (matrix st' Malwares) = insert i (fst ` set (matrix st Malwares))
                     \<and> (own_id e = Some i \<or> own_id e = None)
            else fst ` set (matrix st' Malwares) = fst ` set (matrix st Malwares))"
proof (cases "pass_guard Malwares opts e")
  case False
  then have "st' = st"
    using assms by (auto simp: malware_step_def pass_guard_def of_kind_def split: if_splits)
  with False show ?thesis by simp
next
  case True
  with assms obtain refs i en where
    r: "o_external_references e = Some refs" and s: "scan_refs refs (cur_id st) = Inr (Some i)"
    and m: "matrix st' = put (matrix st) Malwares i en"
    by (auto simp: malware_step_def pass_guard_def of_kind_def
          split: option.splits sum.splits if_splits)
  from scan_refs_own [OF r s] m True show ?thesis
    by (auto simp: keys_of_put)
qed

lemma mitigation_step_keys:
  assumes "mitigation_step opts st e = Inr st'"
  shows "(\<forall>K'. K' \<noteq> Mitigations \<longrightarrow> fst ` set (matrix st' K') = fst ` set (matrix st K'))
       \<and> (if pass_guard Mitigations opts e
            then \<exists>i. fst ` set (matrix st' Mitigations) = insert i (fst ` set (matrix st Mitigations))
                     \<and> (own_id e = Some i \<or> own_id e = None)
            else fst ` set (matrix st' Mitigations) = fst ` set (matrix st Mitigations))"
proof (cases "pass_guard Mitigations opts e")
  case False
  then have "st' = st"
    using assms by (auto simp: mitigation_step_def pass_guard_def of_kind_def split: if_splits)
  with False show ?thesis by simp
next
  case True
  with assms obtain refs i en where
    r: "o_external_references e = Some refs" and s: "scan_refs refs (cur_id st) = Inr (Some i)"
    and m: "matrix st' = put (matrix st) Mitigations i en"
    by (auto simp: mitigation_step_def pass_guard_def of_kind_def
          split: option.splits sum.splits if_splits)
  from scan_refs_own [OF r s] m True show ?thesis
    by (auto simp: keys_of_put)
qed

lemma tool_step_keys:
  assumes "tool_step opts st e = Inr st'"
  shows "(\<forall>K'. K' \<noteq> Tools \<longrightarrow> fst ` set (matrix st' K') = fst ` set (matrix st K'))
       \<and> (if pass_guard Tools opts e
            then \<exists>i. fst ` set (matrix st' Tools) = insert i (fst ` set (matrix st Tools))
                     \<and> (own_id e = Some i \<or> own_id e = None)
            else fst ` set (matrix st' Tools) = fst ` set (matrix st Tools))"
proof (cases "pass_guard Tools opts e")
  case False
  then have "st' = st"
    using assms by (auto simp: tool_step_def pass_guard_def of_kind_def split: if_splits)
  with False show ?thesis by simp
next
  case True
  with assms obtain refs i en where
    r: "o_external_references e = Some refs" and s: "scan_refs refs (cur_id st) = Inr (Some i)"
    and m: "matrix st' = put (matrix st) Tools i en"
    by (auto simp: tool_step_def pass_guard_def of_kind_def
          split: option.splits sum.splits if_splits)
  from scan_refs_own [OF r s] m True show ?thesis
    by (auto simp: keys_of_put)
qed

lemma phases_loop_keys_set:
  "phases_loop i ps tacs = Inr tacs' \<Longrightarrow> fst ` set tacs' = fst ` set tacs"
  using phases_loop_keys [of i ps tacs tacs'] by (simp flip: set_map)

lemma technique_step_keys:
  assumes "technique_step opts st e = Inr st'"
  shows "(\<forall>K'. K' \<noteq> Techniques \<longrightarrow> fst ` set (matrix st' K') = fst ` set (matrix st K'))
       \<and> (if pass_guard Techniques opts e
            then \<exists>i. fst ` set (matrix st' Techniques) = insert i (fst ` set (matrix st Techniques))
                     \<and> (own_id e = Some i \<or> own_id e = None)
            else fst ` set (matrix st' Techniques) = fst ` set (matrix st Techniques))"
proof (cases "pass_guard Techniques opts e")
  case False
  then have "st' = st"
    using assms by (auto simp: technique_step_def pass_guard_def of_kind_def split: if_splits)
  with False show ?thesis by simp
next
  case True
  with assms obtain refs i where
    r: "o_external_references e = Some refs" and s: "scan_refs refs (cur_id st) = Inr (Some i)"
    and k: "\<And>K'. fst ` set (matrix st' K') =
              (if K' = Techniques then insert i (fst ` set (matrix st Techniques))
               else fst ` set (matrix st K'))"
    by (auto simp: technique_step_def pass_guard_def of_kind_def Let_def keys_of_put
          split: option.splits sum.splits if_splits dest!: phases_loop_keys_set)
  from scan_refs_own [OF r s] k True show ?thesis
    by auto
qed

lemma subtechnique_step_keys:
  assumes "subtechnique_step opts st e = Inr st'"
  shows "(\<forall>K'. K' \<noteq> Subtechniques \<longrightarrow> fst ` set (matrix st' K') = fst ` set (matrix st K'))
       \<and> (if pass_guard Subtechniques opts e
            then \<exists>i. fst ` set (matrix st' Subtechniques)
                       = insert i (fst ` set (matrix st Subtechniques))
                     \<and> (own_id e = Some i \<or> own_id e = None)
            else fst ` set (matrix st' Subtechniques) = fst ` set (matrix st Subtechniques))"
proof (cases "pass_guard Subtechniques opts e")
  case False
  then have "st' = st"
    using assms
    by (auto simp: subtechnique_step_def pass_guard_def of_kind_def split: if_splits)
  with False show ?thesis by simp
next
  case True
  with assms obtain refs i technique en ten ten' where
    r: "o_external_references e = Some refs"
    and s: "scan_sub_refs (matrix st Techniques) refs (cur_id st, cur_technique st)
              = Inr (Some i, Some technique)"
    and p: "map_of (put (matrix st) Subtechniques i en Techniques) technique = Some ten"
    and m: "matrix st' = put (put (matrix st) Subtechniques i en) Techniques technique ten'"
    by (auto simp: subtechnique_step_def pass_guard_def of_kind_def Let_def
          split: option.splits sum.splits if_splits)
  from p have "technique \<in> fst ` set (matrix st Techniques)"
    by (auto simp: put_def dest: map_of_SomeD intro: rev_image_eqI)
  then have t: "insert technique (fst ` set (matrix st Techniques))
                  = fst ` set (matrix st Techniques)"
    by auto
  from scan_refs_own [OF r scan_sub_refs_fst [OF s]] m True t show ?thesis
    by (auto simp: keys_of_put)
qed

lemma create_step_keys:
  assumes "create_step K opts st e = Inr st'"
  shows "(\<forall>K'. K' \<noteq> K \<longrightarrow> fst ` set (matrix st' K') = fst ` set (matrix st K'))
       \<and> (if pass_guard K opts e
            then \<exists>i. fst ` set (matrix st' K) = insert i (fst ` set (matrix st K))
                     \<and> (own_id e = Some i \<or> own_id e = None)
            else fst ` set (matrix st' K) = fst ` set (matrix st K))"
proof (cases K)
  case Tactics
  with assms show ?thesis using tactic_step_keys [of opts st e st']
    by (simp add: create_step_def)
next
  case Techniques
  with assms show ?thesis using technique_step_keys [of opts st e st']
    by (simp add: create_step_def)
next
  case Subtechniques
  with assms show ?thesis using subtechnique_step_keys [of opts st e st']
    by (simp add: create_step_def)
next
  case Actors
  with assms show ?thesis using actor_step_keys [of opts st e st']
    by (simp add: create_step_def)
next
  case Malwares
  with assms show ?thesis using malware_step_keys [of opts st e st']
    by (simp add: create_step_def)
next
  case Mitigations
  with assms show ?thesis using mitigation_step_keys [of opts st e st']
    by (simp add: create_step_def)
next
  case Tools
  with assms show ?thesis using tool_step_keys [of opts st e st']
    by (simp add: create_step_def)
qed

lemma run_pass_keys:
  assumes "run_pass (create_step K opts) es st = Inr st'"
  shows "(\<forall>K'. K' \<noteq> K \<longrightarrow> fst ` set (matrix st' K') = fst ` set (matrix st K'))
       \<and> fst ` set (matrix st K)
           \<union> set (List.map_filter (\<lambda>e. if pass_guard K opts e then own_id e else None) es)
           \<subseteq> fst ` set (matrix st' K)
       \<and> (list_all (\<lambda>e. pass_guard K opts e \<longrightarrow> own_id e \<noteq> None) es \<longrightarrow>
            fst ` set (matrix st' K) = fst ` set (matrix st K)
              \<union> set (List.map_filter (\<lambda>e. if pass_guard K opts e then own_id e else None) es))"
  using assms
proof (induction es arbitrary: st)
  case Nil
  then show ?case by (simp add: List.map_filter_simps)
next
  case (Cons e es)
  from Cons.prems obtain s1 where
    e: "create_step K opts st e = Inr s1" and r: "run_pass (create_step K opts) es s1 = Inr st'"
    by (auto split: sum.splits)
  note ih = Cons.IH [OF r]
  note step = create_step_keys [OF e]
  show ?case
  proof (cases "pass_guard K opts e")
    case False
    with step have same: "\<And>K'. fst ` set (matrix s1 K') = fst ` set (matrix st K')"
      by (metis (full_types))
    from ih False show ?thesis
      by (simp add: same List.map_filter_simps)
  next
    case True
    with step obtain i where
      i: "fst ` set (matrix s1 K) = insert i (fst ` set (matrix st K))"
      and o: "own_id e = Some i \<or> own_id e = None"
      by auto
    from step have other: "\<And>K'. K' \<noteq> K \<Longrightarrow> fst ` set (matrix s1 K') = fst ` set (matrix st K')"
      by simp
    from o show ?thesis
    proof
      assume "own_id e = Some i"
      with ih True i other show ?thesis
        by (auto simp: List.map_filter_simps)
    next
      assume "own_id e = None"
      with ih True i other show ?thesis
        by (auto simp: List.map_filter_simps)
    qed
  qed
qed

lemma run_kinds_keys:
  assumes "run_kinds opts objs Ks st = Inr st'" and "distinct Ks"
  shows "(K \<notin> set Ks \<longrightarrow> fst ` set (matrix st' K) = fst ` set (matrix st K))
       \<and> (K \<in> set Ks \<longrightarrow>
            fst ` set (matrix st K)
              \<union> set (List.map_filter (\<lambda>e. if pass_guard K opts e then own_id e else None) objs)
              \<subseteq> fst ` set (matrix st' K)
            \<and> (list_all (\<lambda>e. pass_guard K opts e \<longrightarrow> own_id e \<noteq> None) objs \<longrightarrow>
                 fst ` set (matrix st' K) = fst ` set (matrix st K)
                   \<union> set (List.map_filter
                            (\<lambda>e. if pass_guard K opts e then own_id e else None) objs)))"
  using assms
proof (induction Ks arbitrary: st)
  case Nil
  then show ?case by simp
next
  case (Cons K0 Ks)
  from Cons.prems obtain s1 where
    p: "run_pass (create_step K0 opts) objs st = Inr s1"
    and r: "run_kinds opts objs Ks s1 = Inr st'"
    by (auto split: sum.splits)
  from Cons.prems have d: "distinct Ks" and n: "K0 \<notin> set Ks" by simp_all
  note ih = Cons.IH [OF r d]
  note pass = run_pass_keys [OF p]
  show ?case
  proof (cases "K = K0")
    case True
    with n ih have "fst ` set (matrix st' K) = fst ` set (matrix s1 K)" by simp
    with pass True show ?thesis by simp
  next
    case False
    with pass have "fst ` set (matrix s1 K) = fst ` set (matrix st K)" by simp
    with ih False show ?thesis by simp
  qed
qed

lemma create_passes_run_kinds:
  "create_passes opts objs =
     run_kinds opts objs
       [Tactics, Techniques, Subtechniques, Actors, Malwares, Mitigations, Tools] init_state"
  by (simp add: create_passes_def create_step_def split: sum.splits)

lemma try_link_keys:
  assumes "try_link g sk sid tk tid = Inr g'"
  shows "fst ` set (g' k) = fst ` set (g k)"
proof (cases "g' = g")
  case True
  then show ?thesis by simp
next
  case False
  with assms obtain ks en en' where
    l: "map_of (g ks) sid = Some en" and g': "g' = put g ks sid en'"
    by (auto simp: try_link_def split: option.splits sum.splits if_splits)
  from l have "sid \<in> fst ` set (g ks)"
    by (auto dest: map_of_SomeD intro: rev_image_eqI)
  then show ?thesis
    by (auto simp: g' keys_of_put)
qed

lemma link_step_matrix:
  assumes "link_step opts objs st e = Inr st'"
  shows "matrix st' = matrix st
       \<or> (\<exists>sk sid tk tid g1. try_link (matrix st) sk sid tk tid = Inr g1
              \<and> try_link g1 tk tid sk sid = Inr (matrix st'))"
  using assms
  by (auto simp: link_step_def Let_def
        split: if_splits option.splits sum.splits prod.splits)

lemma link_step_keys:
  assumes "link_step opts objs st e = Inr st'"
  shows "fst ` set (matrix st' k) = fst ` set (matrix st k)"
  using link_step_matrix [OF assms]
proof
  assume "matrix st' = matrix st"
  then show ?thesis by simp
next
  assume "\<exists>sk sid tk tid g1. try_link (matrix st) sk sid tk tid = Inr g1
              \<and> try_link g1 tk tid sk sid = Inr (matrix st')"
  then obtain sk sid tk tid g1 where
    a: "try_link (matrix st) sk sid tk tid = Inr g1"
    and b: "try_link g1 tk tid sk sid = Inr (matrix st')"
    by blast
  from try_link_keys [OF a, of k] try_link_keys [OF b, of k] show ?thesis by simp
qed

lemma run_link_keys:
  assumes "run_pass (link_step opts objs) es st = Inr st'"
  shows "fst ` set (matrix st' k) = fst ` set (matrix st k)"
  using assms
proof (induction es arbitrary: st)
  case Nil
  then show ?case by simp
next
  case (Cons e es)
  from Cons.prems obtain s1 where
    e: "link_step opts objs st e = Inr s1" and r: "run_pass (link_step opts objs) es s1 = Inr st'"
    by (auto split: sum.splits)
  from Cons.IH [OF r] link_step_keys [OF e] show ?case by simp
qed

lemma pass_guard_policy:
  "pass_guard K opts e =
     (of_kind K e
      \<and> \<not> (flag (o_revoked e) \<and> (K = Malwares \<or> K = Tools \<or> \<not> opt_revoked opts))
      \<and> \<not> (flag (o_x_mitre_deprecated e) \<and> \<not> opt_deprecated opts))"
  by (auto simp: pass_guard_def eligible_def eligible_unrevoked_def)

lemma create_passes_keys:
  assumes "create_passes opts objs = Inr s7"
  shows "set (List.map_filter (\<lambda>e. if pass_guard K opts e then own_id e else None) objs)
           \<subseteq> fst ` set (matrix s7 K)
       \<and> (list_all (\<lambda>e. pass_guard K opts e \<longrightarrow> own_id e \<noteq> None) objs \<longrightarrow>
            fst ` set (matrix s7 K)
              = set (List.map_filter (\<lambda>e. if pass_guard K opts e then own_id e else None) objs))"
proof -
  have k: "K \<in> set [Tactics, Techniques, Subtechniques, Actors, Malwares, Mitigations, Tools]"
    by (cases K) simp_all
  have d: "distinct [Tactics, Techniques, Subtechniques, Actors, Malwares, Mitigations, Tools]"
    by simp
  from assms have r: "run_kinds opts objs
       [Tactics, Techniques, Subtechniques, Actors, Malwares, Mitigations, Tools] init_state
       = Inr s7"
    by (simp only: create_passes_run_kinds)
  have e: "fst ` set (matrix init_state K) = {}"
    by (simp add: init_state_def)
  note x = run_kinds_keys [OF r d, of K, THEN conjunct2, THEN mp, OF k]
  from x show ?thesis
    by (simp add: e)
qed

lemma map_filter_kept:
  "set (List.map_filter (\<lambda>e. if P e then f e else None) xs)
     = {i. \<exists>e\<in>set xs. P e \<and> f e = Some i}"
  by (induction xs) (auto simp: List.map_filter_simps split: option.splits)

text \<open>
  Claim C5. Let \<open>Transform\<close> return a graph, and take a kind \<open>K\<close>. Call a record
  of the bundle kept when it passes the type test of the pass of \<open>K\<close>, it is not a
  revoked record that is excluded, and it is not a deprecated record that is excluded. A
  revoked record is excluded when \<open>K\<close> is Malwares or Tools, whatever
  \<open>options.revoked\<close> says, and otherwise when \<open>options.revoked\<close> is false; a deprecated
  record is excluded when \<open>options.deprecated\<close> is false. Then every kept record that has
  an ATT&CK id of its own is in the graph: its id is a key of the dictionary of \<open>K\<close>. And
  when every kept record has an id of its own, the dictionary of \<open>K\<close> holds nothing else:
  each of its keys is the id of a kept record. So the id of an excluded record is there
  only if a kept record of the same kind carries the same id.
\<close>

theorem transform_keeps_by_policy:
  assumes "Transform opts objs = Inr c" and "(m, g) \<in> set c"
  shows "let kept = (\<lambda>e. of_kind K e
                 \<and> \<not> (flag (o_revoked e) \<and> (K = Malwares \<or> K = Tools \<or> \<not> opt_revoked opts))
                 \<and> \<not> (flag (o_x_mitre_deprecated e) \<and> \<not> opt_deprecated opts))
         in (\<forall>e\<in>set objs. \<forall>i. kept e \<and> own_id e = Some i \<longrightarrow> i \<in> fst ` set (g K))
          \<and> ((\<forall>e\<in>set objs. kept e \<longrightarrow> own_id e \<noteq> None) \<longrightarrow>
               (\<forall>i\<in>fst ` set (g K). \<exists>e\<in>set objs. kept e \<and> own_id e = Some i))"
proof -
  from assms obtain s7 s8 where
    c: "create_passes opts objs = Inr s7"
    and l: "run_pass (link_step opts objs) objs s7 = Inr s8"
    and g: "g = matrix s8"
    by (auto simp: Transform_def Transform_graph_def split: sum.splits)
  have k: "fst ` set (g K) = fst ` set (matrix s7 K)"
    unfolding g by (rule run_link_keys [OF l])
  note p = create_passes_keys [OF c, of K, unfolded map_filter_kept list_all_iff, folded k]
  from p show ?thesis
    unfolding Let_def pass_guard_policy by blast
qed

theorem transform_keeps_by_policy_witness:
  "Transform (ex_opts True True) ex_policy_bundle = Inr [(''Enterprise'', ex_policy_graph)]
   \<and> flag (o_revoked ex_revoked_mitigation)
   \<and> ''M1000'' \<in> fst ` set (ex_policy_graph Mitigations)
   \<and> flag (o_x_mitre_deprecated ex_old_technique)
   \<and> ''T1061'' \<in> fst ` set (ex_policy_graph Techniques)
   \<and> flag (o_revoked ex_revoked_tool)
   \<and> ''S0100'' \<notin> fst ` set (ex_policy_graph Tools)"
proof -
  have t: "Transform (ex_opts True True) ex_policy_bundle = Inr [(''Enterprise'', ex_policy_graph)]"
    by code_simp
  have f: "flag (o_revoked ex_revoked_mitigation) \<and> flag (o_x_mitre_deprecated ex_old_technique)
           \<and> flag (o_revoked ex_revoked_tool)"
    by code_simp
  have i: "(''Enterprise'', ex_policy_graph) \<in> set [(''Enterprise'', ex_policy_graph)]"
    by simp
  have m: "ex_revoked_mitigation \<in> set ex_policy_bundle"
          "ex_old_technique \<in> set ex_policy_bundle"
    by (simp_all add: ex_policy_bundle_def)
  have km: "of_kind Mitigations ex_revoked_mitigation
      \<and> \<not> (flag (o_revoked ex_revoked_mitigation)
             \<and> (Mitigations = Malwares \<or> Mitigations = Tools \<or> \<not> opt_revoked (ex_opts True True)))
      \<and> \<not> (flag (o_x_mitre_deprecated ex_revoked_mitigation)
             \<and> \<not> opt_deprecated (ex_opts True True))
      \<and> own_id ex_revoked_mitigation = Some ''M1000''"
    by code_simp
  have kt: "of_kind Techniques ex_old_technique
      \<and> \<not> (flag (o_revoked ex_old_technique)
             \<and> (Techniques = Malwares \<or> Techniques = Tools \<or> \<not> opt_revoked (ex_opts True True)))
      \<and> \<not> (flag (o_x_mitre_deprecated ex_old_technique)
             \<and> \<not> opt_deprecated (ex_opts True True))
      \<and> own_id ex_old_technique = Some ''T1061''"
    by code_simp
  have wf: "list_all (\<lambda>e. \<not> (of_kind Tools e
      \<and> \<not> (flag (o_revoked e) \<and> (Tools = Malwares \<or> Tools = Tools \<or> \<not> opt_revoked (ex_opts True True)))
      \<and> \<not> (flag (o_x_mitre_deprecated e) \<and> \<not> opt_deprecated (ex_opts True True)))
      \<or> own_id e \<noteq> None) ex_policy_bundle"
    by code_simp
  have no: "list_all (\<lambda>e. \<not> ((of_kind Tools e
      \<and> \<not> (flag (o_revoked e) \<and> (Tools = Malwares \<or> Tools = Tools \<or> \<not> opt_revoked (ex_opts True True)))
      \<and> \<not> (flag (o_x_mitre_deprecated e) \<and> \<not> opt_deprecated (ex_opts True True)))
      \<and> own_id e = Some ''S0100'')) ex_policy_bundle"
    by code_simp
  have a: "''M1000'' \<in> fst ` set (ex_policy_graph Mitigations)"
    using transform_keeps_by_policy [OF t i, of Mitigations] m(1) km
    unfolding Let_def by blast
  have b: "''T1061'' \<in> fst ` set (ex_policy_graph Techniques)"
    using transform_keeps_by_policy [OF t i, of Techniques] m(2) kt
    unfolding Let_def by blast
  have c: "''S0100'' \<notin> fst ` set (ex_policy_graph Tools)"
    using transform_keeps_by_policy [OF t i, of Tools] wf no
    unfolding Let_def list_all_iff by blast
  from t f a b c show ?thesis by blast
qed

section \<open>findTTPOverlap with no ids\<close>

lemma key_of_lookup: "map_of al k = Some v \<Longrightarrow> k \<in> set (map fst al)"
  by (metis map_of_eq_None_iff option.distinct(1) set_map)

lemma lookup_of_key: "k \<in> set (map fst al) \<Longrightarrow> \<exists>v. map_of al k = Some v"
  by (metis map_of_eq_None_iff not_Some_eq set_map)

lemma keys_put_present:
  "k \<in> set (map fst (g K)) \<Longrightarrow> map fst (put g K k v K) = map fst (g K)"
  by (simp add: put_def update_keys)

lemma lookup_put: "map_of (put g K k v K) a = (if a = k then Some v else map_of (g K) a)"
  by (simp add: put_def update_conv')

lemma ttp_unfold_key_frame:
  assumes "actor \<in> set (map fst (g Actors))"
  shows "\<exists>g'. ttp_unfold_key g actor k = Inr g'
           \<and> map fst (g' Actors) = map fst (g Actors)
           \<and> (\<forall>a. a \<noteq> actor \<longrightarrow> map_of (g' Actors) a = map_of (g Actors) a)"
proof -
  obtain en where en: "map_of (g Actors) actor = Some en"
    using lookup_of_key [OF assms] by blast
  show ?thesis
    using assms
    by (auto simp: ttp_unfold_key_def en keys_put_present lookup_put
             simp del: set_map split: option.splits)
qed

lemma ttp_unfold_keys_frame:
  assumes "actor \<in> set (map fst (g Actors))"
  shows "\<exists>g'. ttp_unfold_keys g actor ks = Inr g'
           \<and> map fst (g' Actors) = map fst (g Actors)
           \<and> (\<forall>a. a \<noteq> actor \<longrightarrow> map_of (g' Actors) a = map_of (g Actors) a)"
  using assms
proof (induction ks arbitrary: g)
  case Nil
  show ?case by simp
next
  case (Cons k ks)
  obtain g1 where g1: "ttp_unfold_key g actor k = Inr g1"
      "map fst (g1 Actors) = map fst (g Actors)"
      "\<forall>a. a \<noteq> actor \<longrightarrow> map_of (g1 Actors) a = map_of (g Actors) a"
    using ttp_unfold_key_frame [where g = g and actor = actor and k = k, OF Cons.prems] by blast
  have "actor \<in> set (map fst (g1 Actors))"
    using Cons.prems g1(2) by simp
  from Cons.IH [where g = g1, OF this] obtain g2 where g2: "ttp_unfold_keys g1 actor ks = Inr g2"
      "map fst (g2 Actors) = map fst (g1 Actors)"
      "\<forall>a. a \<noteq> actor \<longrightarrow> map_of (g2 Actors) a = map_of (g1 Actors) a"
    by blast
  show ?case
    using g1 g2 by simp
qed

lemma ttp_unfold_actors_frame:
  assumes "set res \<subseteq> set (map fst (g Actors))"
  shows "\<exists>g'. ttp_unfold_actors g res = Inr g'
           \<and> map fst (g' Actors) = map fst (g Actors)
           \<and> (\<forall>a. a \<notin> set res \<longrightarrow> map_of (g' Actors) a = map_of (g Actors) a)"
  using assms
proof (induction res arbitrary: g)
  case Nil
  show ?case by simp
next
  case (Cons r rs)
  have "r \<in> set (map fst (g Actors))"
    using Cons.prems by simp
  from ttp_unfold_keys_frame [where g = g and actor = r and ks = ttp_overlapkeys, OF this]
  obtain g1 where g1: "ttp_unfold_keys g r ttp_overlapkeys = Inr g1"
      "map fst (g1 Actors) = map fst (g Actors)"
      "\<forall>a. a \<noteq> r \<longrightarrow> map_of (g1 Actors) a = map_of (g Actors) a"
    by blast
  have "set rs \<subseteq> set (map fst (g1 Actors))"
    using Cons.prems g1(2) by simp
  from Cons.IH [where g = g1, OF this] obtain g2 where g2: "ttp_unfold_actors g1 rs = Inr g2"
      "map fst (g2 Actors) = map fst (g1 Actors)"
      "\<forall>a. a \<notin> set rs \<longrightarrow> map_of (g2 Actors) a = map_of (g1 Actors) a"
    by blast
  show ?case
    using g1 g2 by simp
qed

lemma ttp_candidate_frame:
  assumes "c \<in> set (map fst (g Actors))" and "set res \<subseteq> set (map fst (g Actors))"
    and "c \<notin> set res"
  shows "\<exists>g'. ttp_candidate TTPs (g, res) c
               = Inr (g', if qualifies TTPs g c then res @ [c] else res)
           \<and> map fst (g' Actors) = map fst (g Actors)
           \<and> (\<forall>a. a \<notin> set res \<and> a \<noteq> c \<longrightarrow> map_of (g' Actors) a = map_of (g Actors) a)"
proof -
  obtain en where en: "map_of (g Actors) c = Some en"
    using lookup_of_key [OF assms(1)] by blast
  let ?res = "if qualifies TTPs g c then res @ [c] else res"
  have sub: "set ?res \<subseteq> set (map fst (g Actors))"
    using assms by auto
  from ttp_unfold_actors_frame [where g = g and res = ?res, OF sub] obtain g' where g': "ttp_unfold_actors g ?res = Inr g'"
      "map fst (g' Actors) = map fst (g Actors)"
      "\<forall>a. a \<notin> set ?res \<longrightarrow> map_of (g' Actors) a = map_of (g Actors) a"
    by blast
  have "ttp_candidate TTPs (g, res) c = Inr (g', ?res)"
  proof (cases "qualifies TTPs g c")
    case True
    with g'(1) have "ttp_unfold_actors g (res @ [c]) = Inr g'"
      by simp
    moreover have "candidatecontent en \<noteq> []
        \<and> list_all (\<lambda>ttp. ttp \<in> set (candidatecontent en)) TTPs"
      using True by (simp add: qualifies_def en)
    ultimately show ?thesis
      using True assms(3) by (simp add: ttp_candidate_def en Let_def)
  next
    case False
    with g'(1) have "ttp_unfold_actors g res = Inr g'"
      by simp
    moreover have "\<not> (candidatecontent en \<noteq> []
        \<and> list_all (\<lambda>ttp. ttp \<in> set (candidatecontent en)) TTPs)"
      using False by (simp add: qualifies_def en)
    ultimately show ?thesis
      using False by (auto simp: ttp_candidate_def en Let_def)
  qed
  moreover have "\<forall>a. a \<notin> set res \<and> a \<noteq> c \<longrightarrow> map_of (g' Actors) a = map_of (g Actors) a"
    using g'(3) by auto
  ultimately show ?thesis
    using g'(2) by blast
qed

lemma ttp_candidates_result:
  assumes "distinct cs" and "set cs \<subseteq> set (map fst (g Actors))"
    and "set res \<subseteq> set (map fst (g Actors))" and "set res \<inter> set cs = {}"
  shows "\<exists>g'. ttp_candidates TTPs cs (g, res) = Inr (g', res @ filter (qualifies TTPs g) cs)
           \<and> map fst (g' Actors) = map fst (g Actors)"
  using assms
proof (induction cs arbitrary: g res)
  case Nil
  show ?case by simp
next
  case (Cons c cs)
  let ?res = "if qualifies TTPs g c then res @ [c] else res"
  have c: "c \<in> set (map fst (g Actors))" "c \<notin> set res"
    using Cons.prems by auto
  from ttp_candidate_frame [where g = g and res = res and c = c and TTPs = TTPs, OF c(1) Cons.prems(3) c(2)]
  obtain g1 where g1: "ttp_candidate TTPs (g, res) c = Inr (g1, ?res)"
      "map fst (g1 Actors) = map fst (g Actors)"
      "\<forall>a. a \<notin> set res \<and> a \<noteq> c \<longrightarrow> map_of (g1 Actors) a = map_of (g Actors) a"
    by blast
  have p1: "distinct cs" "set cs \<subseteq> set (map fst (g1 Actors))"
      "set ?res \<subseteq> set (map fst (g1 Actors))" "set ?res \<inter> set cs = {}"
    using Cons.prems g1(2) by auto
  from Cons.IH [where g = g1 and res = ?res, OF p1] obtain g2 where
    g2: "ttp_candidates TTPs cs (g1, ?res) = Inr (g2, ?res @ filter (qualifies TTPs g1) cs)"
      "map fst (g2 Actors) = map fst (g1 Actors)"
    by blast
  have same: "filter (qualifies TTPs g1) cs = filter (qualifies TTPs g) cs"
  proof (rule filter_cong [OF refl])
    fix a assume "a \<in> set cs"
    then have "a \<notin> set res \<and> a \<noteq> c"
      using Cons.prems by auto
    then show "qualifies TTPs g1 a = qualifies TTPs g a"
      using g1(3) by (simp add: qualifies_def)
  qed
  show ?case
    using g1 g2 by (simp add: same)
qed

lemma deref_keys:
  "set res \<subseteq> set (map fst (g Actors)) \<Longrightarrow> \<exists>actors. deref g res = Inr actors \<and> map fst actors = res"
proof (induction res)
  case Nil
  show ?case by simp
next
  case (Cons r rs)
  then obtain en where "map_of (g Actors) r = Some en"
    using lookup_of_key [of r "g Actors"] by auto
  moreover obtain actors where "deref g rs = Inr actors" "map fst actors = rs"
    using Cons by auto
  ultimately show ?case by simp
qed

lemma filter_keys_lookup:
  "distinct (map fst al) \<Longrightarrow>
     filter (\<lambda>a. case map_of al a of None \<Rightarrow> False | Some en \<Rightarrow> P en) (map fst al)
       = map fst (filter (\<lambda>(a, en). P en) al)"
proof (induction al)
  case Nil
  show ?case by simp
next
  case (Cons p al)
  obtain a en where p: "p = (a, en)" by (cases p)
  have "filter (\<lambda>x. case map_of (p # al) x of None \<Rightarrow> False | Some en \<Rightarrow> P en) (map fst al)
          = filter (\<lambda>x. case map_of al x of None \<Rightarrow> False | Some en \<Rightarrow> P en) (map fst al)"
    using Cons.prems by (intro filter_cong) (auto simp: p)
  then show ?case
    using Cons by (simp add: p)
qed

lemma ttp_matrix_result:
  assumes "distinct (map fst (g Actors))"
  shows "\<exists>g' actors. ttp_matrix TTPs g = Inr (g', actors)
           \<and> map fst actors = filter (qualifies TTPs g) (map fst (g Actors))"
proof -
  from ttp_candidates_result [of "map fst (g Actors)" g "[]" TTPs] assms
  obtain g' where g': "ttp_candidates TTPs (map fst (g Actors)) (g, [])
        = Inr (g', filter (qualifies TTPs g) (map fst (g Actors)))"
      "map fst (g' Actors) = map fst (g Actors)"
    by auto
  have "set (filter (qualifies TTPs g) (map fst (g Actors))) \<subseteq> set (map fst (g' Actors))"
    using g'(2) by auto
  from deref_keys [where g = g' and res = "filter (qualifies TTPs g) (map fst (g Actors))", OF this] obtain actors where
    "deref g' (filter (qualifies TTPs g) (map fst (g Actors))) = Inr actors"
    "map fst actors = filter (qualifies TTPs g) (map fst (g Actors))"
    by blast
  then show ?thesis
    using g'(1) by (simp add: ttp_matrix_def)
qed

lemma ttp_matrices_result:
  assumes "list_all (\<lambda>(m, g). distinct (map fst (g Actors))) cache"
  shows "\<exists>cache' results. ttp_matrices TTPs cache = Inr (cache', results)
           \<and> map (\<lambda>(m, actors). (m, map fst actors)) results
             = map (\<lambda>(m, g). (m, filter (qualifies TTPs g) (map fst (g Actors)))) cache"
  using assms
proof (induction cache)
  case Nil
  show ?case by simp
next
  case (Cons p cache)
  obtain m g where p: "p = (m, g)" by (cases p)
  have "distinct (map fst (g Actors))"
    using Cons.prems by (simp add: p)
  from ttp_matrix_result [where g = g and TTPs = TTPs, OF this] obtain g' actors where
    1: "ttp_matrix TTPs g = Inr (g', actors)"
       "map fst actors = filter (qualifies TTPs g) (map fst (g Actors))"
    by blast
  from Cons obtain cache' results where
    2: "ttp_matrices TTPs cache = Inr (cache', results)"
       "map (\<lambda>(m, actors). (m, map fst actors)) results
          = map (\<lambda>(m, g). (m, filter (qualifies TTPs g) (map fst (g Actors)))) cache"
    by auto
  show ?case
    using 1 2 by (simp add: p)
qed

lemma qualifies_empty:
  "qualifies [] g a =
     (case map_of (g Actors) a of
        None \<Rightarrow> False
      | Some en \<Rightarrow>
          list_ex (\<lambda>k. case rels en k of None \<Rightarrow> False | Some rv \<Rightarrow> relkeys rv \<noteq> [])
            [Malwares, Subtechniques, Techniques, Tools])"
  by (auto simp: qualifies_def candidatecontent_def ttp_overlapkeys_def split: option.splits)

text \<open>
  Claim C6. On a loaded cache whose actor dictionaries have distinct keys (as every
  dictionary has), findTTPOverlap with the empty list returns a result, and the result
  lists, matrix by matrix in the order of the cache, the actors for which one of the
  relation values under Malwares, Subtechniques, Techniques, Tools is non-empty, and only
  the matrices that have such an actor.
\<close>

theorem ttp_overlap_empty_list:
  assumes "loadCaches opts fs matrixcaches = Inr cache"
    and "list_all (\<lambda>(m, g). distinct (map fst (g Actors))) cache"
  shows "\<exists>results. findTTPOverlap opts fs matrixcaches [] = Inr results
           \<and> map (\<lambda>(m, actors). (m, map fst actors)) results
             = filter (\<lambda>(m, ids). ids \<noteq> [])
                 (map (\<lambda>(m, g). (m, map fst (filter (\<lambda>(a, en).
                     list_ex (\<lambda>k. case rels en k of None \<Rightarrow> False | Some rv \<Rightarrow> relkeys rv \<noteq> [])
                       [Malwares, Subtechniques, Techniques, Tools]) (g Actors)))) cache)"
proof -
  from ttp_matrices_result [OF assms(2), of "[]"] obtain cache' results where
    r: "ttp_matrices [] cache = Inr (cache', results)"
       "map (\<lambda>(m, actors). (m, map fst actors)) results
          = map (\<lambda>(m, g). (m, filter (qualifies [] g) (map fst (g Actors)))) cache"
    by blast
  have each: "map (\<lambda>(m, g). (m, filter (qualifies [] g) (map fst (g Actors)))) cache
      = map (\<lambda>(m, g). (m, map fst (filter (\<lambda>(a, en).
                     list_ex (\<lambda>k. case rels en k of None \<Rightarrow> False | Some rv \<Rightarrow> relkeys rv \<noteq> [])
                       [Malwares, Subtechniques, Techniques, Tools]) (g Actors)))) cache"
  proof (rule map_cong [OF refl])
    fix p assume "p \<in> set cache"
    then have "distinct (map fst (snd p Actors))"
      using assms(2) by (auto simp: list_all_iff)
    from filter_keys_lookup [OF this] show "(case p of (m, g) \<Rightarrow> (m, filter (qualifies [] g) (map fst (g Actors))))
       = (case p of (m, g) \<Rightarrow> (m, map fst (filter (\<lambda>(a, en).
                     list_ex (\<lambda>k. case rels en k of None \<Rightarrow> False | Some rv \<Rightarrow> relkeys rv \<noteq> [])
                       [Malwares, Subtechniques, Techniques, Tools]) (g Actors))))"
      by (cases p) (simp add: qualifies_empty [abs_def])
  qed
  have flt: "map (\<lambda>(m, actors). (m, map fst actors)) (filter (\<lambda>(m, actors). actors \<noteq> []) results)
      = filter (\<lambda>(m, ids). ids \<noteq> []) (map (\<lambda>(m, actors). (m, map fst actors)) results)"
    by (induction results) auto
  show ?thesis
    using r(1) by (simp add: findTTPOverlap_def assms(1) ttp_overlap_on_def flt r(2) each)
qed


theorem ttp_overlap_empty_list_witness:
  "loadCaches (ex_opts True False) ex_fs [''Enterprise''] = Inr ex_cache
   \<and> list_all (\<lambda>(m, g). distinct (map fst (g Actors))) ex_cache
   \<and> (\<exists>results. findTTPOverlap (ex_opts True False) ex_fs [''Enterprise''] [] = Inr results
         \<and> map (\<lambda>(m, actors). (m, map fst actors)) results = [(''Enterprise'', [''G0035'', ''G0002''])])"
proof -
  have h1: "loadCaches (ex_opts True False) ex_fs [''Enterprise''] = Inr ex_cache"
    by code_simp
  have h2: "list_all (\<lambda>(m, g). distinct (map fst (g Actors))) ex_cache"
    by code_simp
  have v: "filter (\<lambda>(m, ids). ids \<noteq> [])
             (map (\<lambda>(m, g). (m, map fst (filter (\<lambda>(a, en).
                 list_ex (\<lambda>k. case rels en k of None \<Rightarrow> False | Some rv \<Rightarrow> relkeys rv \<noteq> [])
                   [Malwares, Subtechniques, Techniques, Tools]) (g Actors)))) ex_cache)
           = [(''Enterprise'', [''G0035'', ''G0002''])]"
    by code_simp
  show ?thesis
    using ttp_overlap_empty_list [OF h1 h2] h1 h2 by (simp only: v)
qed

section \<open>findActorOverlap of an actor with itself\<close>

lemma update_fresh: "k \<notin> set (map fst al) \<Longrightarrow> AList.update k v al = al @ [(k, v)]"
  by (induction al) auto

lemma picks_Cons:
  "picks ((m, g) # cache) a
     = (case map_of (g Actors) a of None \<Rightarrow> [] | Some en \<Rightarrow> [(m, en)]) @ picks cache a"
  by (simp add: picks_def)

lemma picks_keys: "set (map fst (picks cache a)) \<subseteq> set (map fst cache)"
proof (induction cache)
  case Nil
  show ?case by (simp add: picks_def)
next
  case (Cons p cache)
  obtain m g where p: "p = (m, g)" by (cases p)
  show ?case
    using Cons.IH by (auto simp: p picks_Cons split: option.splits)
qed

lemma collect_actors_same:
  assumes "distinct (map fst cache)" and "rstrip_char CHR ''/'' a = a"
    and "set (map fst acc1) \<inter> set (map fst cache) = {}"
    and "set (map fst acc2) \<inter> set (map fst cache) = {}"
  shows "collect_actors a a cache (acc1, acc2)
           = Inr (acc1 @ picks cache a, acc2 @ picks cache a)"
  using assms
proof (induction cache arbitrary: acc1 acc2)
  case Nil
  show ?case by (simp add: picks_def)
next
  case (Cons p cache)
  obtain m g where p: "p = (m, g)" by (cases p)
  let ?new = "case map_of (g Actors) a of None \<Rightarrow> [] | Some en \<Rightarrow> [(m, en)]"
  have fresh: "m \<notin> set (map fst acc1)" "m \<notin> set (map fst acc2)"
    using Cons.prems by (auto simp: p)
  have pick1: "pick_actor g m a acc1 = Inr (acc1 @ ?new)"
    using fresh(1) Cons.prems(2) by (simp add: pick_actor_def update_fresh split: option.splits)
  have pick2: "pick_actor g m a acc2 = Inr (acc2 @ ?new)"
    using fresh(2) Cons.prems(2) by (simp add: pick_actor_def update_fresh split: option.splits)
  have d: "distinct (map fst cache)" and mfresh: "m \<notin> set (map fst cache)"
    using Cons.prems(1) by (auto simp: p)
  have newkeys: "set (map fst ?new) \<subseteq> {m}"
    by (auto split: option.splits)
  have i1: "set (map fst (acc1 @ ?new)) \<inter> set (map fst cache) = {}"
    using Cons.prems(3) mfresh newkeys by (auto simp: p split: option.splits)
  have i2: "set (map fst (acc2 @ ?new)) \<inter> set (map fst cache) = {}"
    using Cons.prems(4) mfresh newkeys by (auto simp: p split: option.splits)
  have "collect_actors a a (p # cache) (acc1, acc2)
          = collect_actors a a cache (acc1 @ ?new, acc2 @ ?new)"
    by (simp add: p pick1 pick2)
  also have "\<dots> = Inr ((acc1 @ ?new) @ picks cache a, (acc2 @ ?new) @ picks cache a)"
    by (rule Cons.IH [OF d Cons.prems(2) i1 i2])
  finally show ?case
    by (simp add: p picks_Cons)
qed

lemma set_add_entries: "set (add_entries es ks) = set ks \<union> set es"
proof -
  have "set (fold (\<lambda>entry acc. if entry \<in> set acc then acc else acc @ [entry]) es ks)
          = set ks \<union> set es"
    by (induction es arbitrary: ks) auto
  then show ?thesis by (simp add: add_entries_def)
qed

lemma set_absorb_keys:
  "set (absorb_keys en amap k)
     = set (amap k) \<union> (if k \<in> set actor_overlapkeys then set (ids_of en k) else {})"
  by (auto simp: absorb_keys_def ids_of_def set_add_entries split: option.splits)

lemma absorb_matrices_maps:
  "set (actor1map (absorb_matrices i1 i2 a1 a2 ms st) k)
     = set (actor1map st k) \<union>
       (if k \<in> set actor_overlapkeys
        then (\<Union>m \<in> set ms. case map_of a1 m of None \<Rightarrow> {} | Some en \<Rightarrow> set (ids_of en k))
        else {})
   \<and> set (actor2map (absorb_matrices i1 i2 a1 a2 ms st) k)
     = set (actor2map st k) \<union>
       (if k \<in> set actor_overlapkeys
        then (\<Union>m \<in> set ms. case map_of a2 m of None \<Rightarrow> {} | Some en \<Rightarrow> set (ids_of en k))
        else {})"
proof (induction ms arbitrary: st)
  case Nil
  show ?case by simp
next
  case (Cons m ms)
  show ?case
    by (simp add: Cons.IH Let_def set_absorb_keys split: option.splits) blast
qed


lemma picks_distinct: "distinct (map fst cache) \<Longrightarrow> distinct (map fst (picks cache a))"
proof (induction cache)
  case Nil
  show ?case by (simp add: picks_def)
next
  case (Cons p cache)
  obtain m g where p: "p = (m, g)" by (cases p)
  have "m \<notin> set (map fst (picks cache a))"
    using Cons.prems picks_keys [of cache a] by (auto simp: p)
  then show ?case
    using Cons by (auto simp: p picks_Cons split: option.splits)
qed

lemma union_ids_picks:
  "set (union_ids cache a k) = (\<Union>p \<in> set (picks cache a). set (ids_of (snd p) k))"
proof (induction cache)
  case Nil
  show ?case by (simp add: union_ids_def picks_def)
next
  case (Cons p cache)
  obtain m g where p: "p = (m, g)" by (cases p)
  have "set (union_ids (p # cache) a k) = set (rel_ids g Actors a k) \<union> set (union_ids cache a k)"
    by (simp add: union_ids_def p)
  then show ?case
    using Cons.IH by (auto simp: p picks_Cons rel_ids_def ids_of_def split: option.splits)
qed

lemma lookup_union:
  assumes "distinct (map fst al)"
  shows "(\<Union>m \<in> set (map fst al). case map_of al m of None \<Rightarrow> {} | Some en \<Rightarrow> F en)
           = (\<Union>p \<in> set al. F (snd p))"
proof (intro equalityI subsetI)
  fix x
  assume "x \<in> (\<Union>m \<in> set (map fst al). case map_of al m of None \<Rightarrow> {} | Some en \<Rightarrow> F en)"
  then obtain m where "x \<in> (case map_of al m of None \<Rightarrow> {} | Some en \<Rightarrow> F en)"
    by blast
  then obtain en where "map_of al m = Some en" "x \<in> F en"
    by (cases "map_of al m") auto
  then have "(m, en) \<in> set al" "x \<in> F (snd (m, en))"
    by (auto dest: map_of_SomeD)
  then show "x \<in> (\<Union>p \<in> set al. F (snd p))"
    by blast
next
  fix x
  assume "x \<in> (\<Union>p \<in> set al. F (snd p))"
  then obtain m en where p: "(m, en) \<in> set al" "x \<in> F en"
    by auto
  then have "map_of al m = Some en"
    using assms by simp
  moreover have "m \<in> set (map fst al)"
    using p(1) by force
  ultimately show "x \<in> (\<Union>m \<in> set (map fst al). case map_of al m of None \<Rightarrow> {} | Some en \<Rightarrow> F en)"
    using p(2) by force
qed

lemma inner_unfold_keys:
  "fst ` set (fold (\<lambda>(matrixname, g) acc'.
                     case map_of (g k) key of
                       None \<Rightarrow> acc'
                     | Some en \<Rightarrow> AList.update key (summary_of en) acc') cache acc)
     = fst ` set acc \<union> (if resolves cache k key then {key} else {})"
proof (induction cache arbitrary: acc)
  case Nil
  show ?case by (simp add: resolves_def)
next
  case (Cons p cache)
  obtain m g where p: "p = (m, g)" by (cases p)
  show ?case
    by (cases "map_of (g k) key") (auto simp: p Cons.IH resolves_def dom_update)
qed

lemma overlap_unfold_keys:
  "fst ` set (overlap_unfold cache k keys) = {i \<in> set keys. resolves cache k i}"
proof -
  let ?step = "\<lambda>key acc.
             fold (\<lambda>(matrixname, g) acc'.
                     case map_of (g k) key of
                       None \<Rightarrow> acc'
                     | Some en \<Rightarrow> AList.update key (summary_of en) acc')
                  cache acc"
  have "fst ` set (fold ?step keys acc)
          = fst ` set acc \<union> {i \<in> set keys. resolves cache k i}" for acc
  proof (induction keys arbitrary: acc)
    case Nil
    show ?case by simp
  next
    case (Cons key keys)
    show ?case
      by (simp only: fold_simps Cons.IH inner_unfold_keys) auto
  qed
  from this [of "[]"] show ?thesis
    by (simp add: overlap_unfold_def)
qed


lemma kind_overlap_same:
  assumes "k \<in> set actor_overlapkeys"
    and "set (m1 k) = set ids" and "set (m2 k) = set ids"
  shows "(kind_overlap cache m1 m2 k = None \<longleftrightarrow> ids = [])
       \<and> (\<forall>d. kind_overlap cache m1 m2 k = Some d
              \<longrightarrow> fst ` set d = {i \<in> set ids. resolves cache k i})"
proof -
  have keys: "filter (\<lambda>entry. entry \<in> set (m2 k)) (m1 k) = m1 k"
    using assms(2,3) by (simp add: filter_id_conv)
  have empty: "m1 k = [] \<longleftrightarrow> ids = []"
    using assms(2) by (metis set_empty)
  show ?thesis
    using assms(1,2) empty
    by (auto simp: kind_overlap_def Let_def keys overlap_unfold_keys simp del: set_empty)
qed

text \<open>
  What findActorOverlap computes on \<open>(a, a)\<close>. Let the cache have distinct matrix names,
  let the id \<open>a\<close> have no trailing slash, and let \<open>sorder\<close> enumerate the elements of a set.
  Then the function returns; it returns \<open>None\<close> exactly when the actor holds no id under
  any of Malwares, Mitigations, Subtechniques, Techniques, Tools in any matrix; and
  otherwise the result has a kind exactly when the actor holds an id under it. The keys
  under that kind are only those of the actor's ids that some matrix of the cache holds
  as an entity of that kind: the unfolding loop (l.266-272) has no \<open>else\<close> branch, so an
  id of the actor that no matrix holds is lost, where \<^const>\<open>unfoldKeys\<close> (l.396-401)
  writes the placeholder.
\<close>

lemma actor_overlap_same_actor:
  assumes so: "\<And>xs. set (sorder xs) = set xs"
    and dist: "distinct (map fst cache)"
    and slash: "rstrip_char CHR ''/'' a = a"
  shows "\<exists>r. actor_overlap_on sorder cache a a = Inr r
     \<and> (r = None \<longleftrightarrow> (\<forall>k \<in> set actor_overlapkeys. union_ids cache a k = []))
     \<and> (\<forall>ov. r = Some ov \<longrightarrow> (\<forall>k \<in> set actor_overlapkeys.
           (ov_kinds ov k = None \<longleftrightarrow> union_ids cache a k = [])
         \<and> (\<forall>d. ov_kinds ov k = Some d
               \<longrightarrow> fst ` set d = {i \<in> set (union_ids cache a k). resolves cache k i})))"
proof -
  define act where "act = picks cache a"
  define ms where "ms = sorder (map fst act @ map fst act)"
  define st0 where "st0 = \<lparr>actor1map = (\<lambda>_. []), actor2map = (\<lambda>_. []),
                      ov_actors = AList.update a ([], []) (AList.update a ([], []) [])\<rparr>"
  define st where "st = absorb_matrices a a act act ms st0"
  define kinds where "kinds = kind_overlap cache (actor1map st) (actor2map st)"
  have collect: "collect_actors a a cache ([], []) = Inr (act, act)"
    using collect_actors_same [OF dist slash, of "[]" "[]"] by (simp add: act_def)
  have ms: "set ms = set (map fst act)"
    by (simp add: ms_def so)
  have un: "(\<Union>m \<in> set ms. case map_of act m of None \<Rightarrow> {} | Some en \<Rightarrow> set (ids_of en k))
              = set (union_ids cache a k)" for k
    unfolding ms
    using lookup_union [OF picks_distinct [OF dist, of a], of "\<lambda>en. set (ids_of en k)"]
    by (simp add: act_def union_ids_picks)
  have maps: "set (actor1map st k) = set (union_ids cache a k)"
             "set (actor2map st k) = set (union_ids cache a k)"
    if "k \<in> set actor_overlapkeys" for k
    using absorb_matrices_maps [of a a act act ms st0 k] that
    by (simp_all add: st_def [symmetric] un) (simp_all add: st0_def)
  have each: "(kinds k = None \<longleftrightarrow> union_ids cache a k = [])
       \<and> (\<forall>d. kinds k = Some d
              \<longrightarrow> fst ` set d = {i \<in> set (union_ids cache a k). resolves cache k i})"
    if "k \<in> set actor_overlapkeys" for k
    unfolding kinds_def
    by (rule kind_overlap_same [where ?m1.0 = "actor1map st" and ?m2.0 = "actor2map st"
          and ids = "union_ids cache a k", OF that maps(1) [OF that] maps(2) [OF that]])
  have none: "\<not> list_ex (\<lambda>k. kinds k \<noteq> None) actor_overlapkeys
      \<longleftrightarrow> (\<forall>k \<in> set actor_overlapkeys. union_ids cache a k = [])"
    using each by (auto simp: list_ex_iff)
  have res: "actor_overlap_on sorder cache a a =
      (if list_ex (\<lambda>k. kinds k \<noteq> None) actor_overlapkeys then
         Inr (Some \<lparr>ov_Actors = finish_actor sorder a (finish_actor sorder a (ov_actors st)),
                    ov_Matrices = ms, ov_kinds = kinds\<rparr>)
       else Inr None)"
    by (simp add: actor_overlap_on_def collect Let_def ms_def st_def st0_def kinds_def)
  show ?thesis
  proof (cases "list_ex (\<lambda>k. kinds k \<noteq> None) actor_overlapkeys")
    case True
    then show ?thesis
      using none each by (simp add: res)
  next
    case False
    then show ?thesis
      using none by (simp add: res)
  qed
qed


lemma actor_overlap_same_actor_witness:
  "(\<forall>xs :: string list. set (remdups xs) = set xs)
   \<and> distinct (map fst ex_cache)
   \<and> rstrip_char CHR ''/'' ''G0035'' = ''G0035''
   \<and> (\<exists>r. actor_overlap_on remdups ex_cache ''G0035'' ''G0035'' = Inr r
     \<and> (r = None \<longleftrightarrow> (\<forall>k \<in> set actor_overlapkeys. union_ids ex_cache ''G0035'' k = []))
     \<and> (\<forall>ov. r = Some ov \<longrightarrow> (\<forall>k \<in> set actor_overlapkeys.
           (ov_kinds ov k = None \<longleftrightarrow> union_ids ex_cache ''G0035'' k = [])
         \<and> (\<forall>d. ov_kinds ov k = Some d
               \<longrightarrow> fst ` set d
                   = {i \<in> set (union_ids ex_cache ''G0035'' k). resolves ex_cache k i}))))"
proof -
  have h1: "set (remdups xs) = set xs" for xs :: "string list"
    by simp
  have h2: "distinct (map fst ex_cache)"
    by code_simp
  have h3: "rstrip_char CHR ''/'' ''G0035'' = ''G0035''"
    by code_simp
  show ?thesis
    using actor_overlap_same_actor [of remdups ex_cache "''G0035''", OF h1 h2 h3] h2 h3
    by simp
qed

text \<open>
  Claim C7 (findActorOverlap on \<open>(a, a)\<close>, for an actor id \<open>a\<close> that a loaded matrix
  holds, returns every id of the actor's sets under each kind, and the absent result
  exactly when all the sets are empty) does not hold of the code, by two defects.
  The actor G0035 holds the technique ids T1566 and T1061, and no matrix holds T1061:
  the result of findActorOverlap on (G0035, G0035) has only T1566 under Techniques, since
  the unfolding loop (l.266-272) has no \<open>else\<close> branch, while \<^const>\<open>unfoldKeys\<close> gives
  T1061 the placeholder for the same actor. And the actor stored under the id \<open>G0099/\<close>
  holds T1566, yet the query on that id returns \<open>None\<close>: the membership test (l.189) looks
  for the id stripped of its slash, the subscript (l.190) uses the id as given.
\<close>

theorem actor_overlap_drops_unresolved:
  "union_ids ex_cache ''G0035'' Techniques = [''T1566'', ''T1061'']
   \<and> map_sum id (map_option (\<lambda>ov. map_option (map fst) (ov_kinds ov Techniques)))
        (actor_overlap_on remdups ex_cache ''G0035'' ''G0035'')
       = Inr (Some (Some [''T1566'']))
   \<and> map_sum id (\<lambda>en. rels en Techniques) (unfoldKeys ex_cache ''Enterprise'' Actors ''G0035'')
       = Inr (Some (Unfolded
           [(''T1566'', \<lparr>s_name = Scalar ''Phishing'', s_description = ''text''\<rparr>),
            (''T1061'', \<lparr>s_name = Scalar ''T1061'',
                         s_description = ''*** DEPRECATED OR REVOKED TECHNIQUE ***''\<rparr>)]))
   \<and> map fst (concat (map (\<lambda>(m, g). g Actors) ex_slash_cache)) = [''G0099/'']
   \<and> union_ids ex_slash_cache ''G0099/'' Techniques = [''T1566'']
   \<and> map_sum id (map_option (\<lambda>ov. map_option (map fst) (ov_kinds ov Techniques)))
        (actor_overlap_on remdups ex_slash_cache ''G0099/'' ''G0099/'')
       = Inr None"
  by code_simp

section \<open>Transform links entities in both directions\<close>

lemma shaped_key:
  "shaped k en \<Longrightarrow> k' \<in> set (relation_keys k) \<Longrightarrow> rels en k' = Some (Ids (ids_of en k'))"
  unfolding shaped_def ids_of_def by (metis option.simps(5) relkeys.simps(1))

lemma shaped_no_key:
  "shaped k en \<Longrightarrow> k' \<notin> set (relation_keys k) \<Longrightarrow> rels en k' = None"
  unfolding shaped_def by metis

lemma shaped_update:
  assumes "shaped k en" and "k' \<in> set (relation_keys k)"
  shows "shaped k (en\<lparr>rels := (rels en)(k' \<mapsto> Ids xs)\<rparr>)"
  using assms unfolding shaped_def by simp

lemma ids_of_update:
  "ids_of (en\<lparr>rels := (rels en)(k' \<mapsto> Ids xs)\<rparr>) k'' = (if k'' = k' then xs else ids_of en k'')"
  by (simp add: ids_of_def)

lemma created_D: "created g \<Longrightarrow> (i, en) \<in> set (g k) \<Longrightarrow> unlinked k en"
  unfolding created_def by force

lemma set_update_subset: "set (AList.update k v al) \<subseteq> insert (k, v) (set al)"
  by (induction al) auto

lemma created_put:
  assumes "created g" and "unlinked K en"
  shows "created (put g K i en)"
  unfolding created_def put_def
proof (intro allI ballI)
  fix k p
  assume p: "p \<in> set ((g(K := AList.update i en (g K))) k)"
  show "unlinked k (snd p)"
  proof (cases "k = K")
    case True
    with p have "p \<in> insert (i, en) (set (g K))"
      using set_update_subset [of i en "g K"] by auto
    then show ?thesis
      using assms True by (auto simp: created_def)
  next
    case False
    with p assms(1) show ?thesis by (auto simp: created_def)
  qed
qed

lemma unlinked_new_entity:
  "ks = relation_keys K \<Longrightarrow> unlinked K (new_entity nm d ks)"
  by (auto simp: unlinked_def shaped_def new_entity_def empty_rels_def ids_of_def)

lemma unlinked_new_subtechnique:
  "ks = relation_keys K \<Longrightarrow> unlinked K ((new_entity nm d ks)\<lparr>subtechnique_of := x\<rparr>)"
  by (auto simp: unlinked_def shaped_def new_entity_def empty_rels_def ids_of_def)

lemma created_init: "created (matrix init_state)"
  by (simp add: created_def init_state_def)

lemma run_pass_invariant:
  assumes step: "\<And>st e st'. P (matrix st) \<Longrightarrow> f st e = Inr st' \<Longrightarrow> P (matrix st')"
    and "P (matrix st)" and "run_pass f objs st = Inr st'"
  shows "P (matrix st')"
  using assms(2,3)
proof (induction objs arbitrary: st)
  case Nil
  then show ?case by simp
next
  case (Cons e es)
  from Cons.prems(2) obtain s1 where s1: "f st e = Inr s1" "run_pass f es s1 = Inr st'"
    by (auto split: sum.splits)
  from step [OF Cons.prems(1) s1(1)] have "P (matrix s1)" .
  from Cons.IH [OF this s1(2)] show ?case .
qed

lemma tactic_step_created:
  assumes "created (matrix st)" and "tactic_step opts st e = Inr st'"
  shows "created (matrix st')"
  using assms
  by (auto simp: tactic_step_def relation_keys_def
           intro!: created_put unlinked_new_entity split: if_splits option.splits sum.splits)

lemma actor_step_created:
  assumes "created (matrix st)" and "actor_step opts st e = Inr st'"
  shows "created (matrix st')"
  using assms
  by (auto simp: actor_step_def relation_keys_def
           intro!: created_put unlinked_new_entity split: if_splits option.splits sum.splits list.splits)

lemma malware_step_created:
  assumes "created (matrix st)" and "malware_step opts st e = Inr st'"
  shows "created (matrix st')"
  using assms
  by (auto simp: malware_step_def relation_keys_def
           intro!: created_put unlinked_new_entity split: if_splits option.splits sum.splits)

lemma mitigation_step_created:
  assumes "created (matrix st)" and "mitigation_step opts st e = Inr st'"
  shows "created (matrix st')"
  using assms
  by (auto simp: mitigation_step_def relation_keys_def
           intro!: created_put unlinked_new_entity split: if_splits option.splits sum.splits)

lemma tool_step_created:
  assumes "created (matrix st)" and "tool_step opts st e = Inr st'"
  shows "created (matrix st')"
  using assms
  by (auto simp: tool_step_def relation_keys_def
           intro!: created_put unlinked_new_entity split: if_splits option.splits sum.splits)


lemma rel_add_tactic:
  assumes "unlinked Tactics en" and "rel_add en Techniques i = Inr en'"
  shows "unlinked Tactics en'"
proof -
  have sh: "shaped Tactics en"
    using assms(1) by (simp add: unlinked_def)
  have key: "Techniques \<in> set (relation_keys Tactics)"
    by (simp add: relation_keys_def)
  have r: "rels en Techniques = Some (Ids (ids_of en Techniques))"
    by (rule shaped_key [OF sh key])
  show ?thesis
  proof (cases "i \<in> set (ids_of en Techniques)")
    case True
    with assms r show ?thesis by (simp add: rel_add_def)
  next
    case False
    with assms(2) r have en': "en' = en\<lparr>rels := (rels en)(Techniques \<mapsto> Ids (ids_of en Techniques @ [i]))\<rparr>"
      by (simp add: rel_add_def)
    have "shaped Tactics en'"
      unfolding en' by (rule shaped_update [OF sh key])
    moreover have "\<forall>k'. \<not> contained Tactics k' \<longrightarrow> ids_of en' k' = []"
      using assms(1) by (auto simp: en' ids_of_update unlinked_def contained_def)
    moreover have "distinct (ids_of en' Techniques)"
      using assms(1) False by (simp add: en' ids_of_update unlinked_def)
    ultimately show ?thesis
      by (simp add: unlinked_def)
  qed
qed

lemma tactics_add_unlinked:
  assumes "\<forall>p \<in> set al. unlinked Tactics (snd p)" and "tactics_add i ph al = Inr al'"
  shows "\<forall>p \<in> set al'. unlinked Tactics (snd p)"
  using assms
proof (induction al arbitrary: al')
  case Nil
  then show ?case by simp
next
  case (Cons p al)
  obtain t en where p: "p = (t, en)" by (cases p)
  from Cons.prems(2) obtain n en' rest' where
    parts: "name en = Scalar n"
      "(if substr (lower n) (lower ph) then rel_add en Techniques i else Inr en) = Inr en'"
      "tactics_add i ph al = Inr rest'" "al' = (t, en') # rest'"
    by (auto simp: p split: nameval.splits sum.splits)
  have "unlinked Tactics en"
    using Cons.prems(1) by (simp add: p)
  then have "unlinked Tactics en'"
    using parts(2) rel_add_tactic by (auto split: if_splits)
  moreover have "\<forall>q \<in> set rest'. unlinked Tactics (snd q)"
    using Cons.IH [OF _ parts(3)] Cons.prems(1) by simp
  ultimately show ?case
    by (simp add: parts(4))
qed

lemma phases_loop_unlinked:
  assumes "\<forall>p \<in> set tacs. unlinked Tactics (snd p)" and "phases_loop i ps tacs = Inr tacs'"
  shows "\<forall>p \<in> set tacs'. unlinked Tactics (snd p)"
  using assms
proof (induction ps arbitrary: tacs)
  case Nil
  then show ?case by simp
next
  case (Cons ph ps)
  from Cons.prems(2) obtain kcn where kcn: "kill_chain_name ph = Some kcn"
    by (auto split: option.splits)
  show ?case
  proof (cases "phase_name ph")
    case None
    with Cons kcn show ?thesis by simp
  next
    case (Some x)
    show ?thesis
    proof (cases "substr ''attack'' kcn \<and> x \<noteq> []")
      case True
      with Cons.prems(2) kcn Some obtain mid where
        mid: "tactics_add i (capwords (replace_dash x)) tacs = Inr mid"
          "phases_loop i ps mid = Inr tacs'"
        by (auto split: sum.splits)
      from tactics_add_unlinked [OF Cons.prems(1) mid(1)]
      show ?thesis
        using Cons.IH [OF _ mid(2)] by blast
    next
      case False
      with Cons kcn Some show ?thesis by auto
    qed
  qed
qed

lemma created_tactics:
  assumes "created g" and "\<forall>p \<in> set tacs. unlinked Tactics (snd p)"
  shows "created (g(Tactics := tacs))"
  using assms by (auto simp: created_def)

lemma technique_step_created:
  assumes "created (matrix st)" and "technique_step opts st e = Inr st'"
  shows "created (matrix st')"
proof (cases "eligible opts e \<and> has_type e ''attack-pattern''
         \<and> \<not> flag (o_x_mitre_is_subtechnique e)")
  case False
  with assms show ?thesis by (auto simp: technique_step_def)
next
  case True
  with assms(2) obtain technique refs i tacs where
    parts: "o_name e = Some technique" "o_external_references e = Some refs"
      "scan_refs refs (cur_id st) = Inr (Some i)"
      "phases_loop i (case o_kill_chain_phases e of None \<Rightarrow> [] | Some ps \<Rightarrow> ps)
         (put (matrix st) Techniques i
            (new_entity (Scalar technique) (description_or_default e)
               [Actors, Malwares, Mitigations, Subtechniques, Tools]) Tactics) = Inr tacs"
      "matrix st' = (put (matrix st) Techniques i
            (new_entity (Scalar technique) (description_or_default e)
               [Actors, Malwares, Mitigations, Subtechniques, Tools]))(Tactics := tacs)"
    by (auto simp: technique_step_def Let_def split: option.splits sum.splits)
  let ?m1 = "put (matrix st) Techniques i
            (new_entity (Scalar technique) (description_or_default e)
               [Actors, Malwares, Mitigations, Subtechniques, Tools])"
  have m1: "created ?m1"
    by (rule created_put [OF assms(1)]) (rule unlinked_new_entity, simp add: relation_keys_def)
  then have "\<forall>p \<in> set (?m1 Tactics). unlinked Tactics (snd p)"
    by (simp add: created_def)
  from phases_loop_unlinked [OF this parts(4)]
  show ?thesis
    unfolding parts(5) by (rule created_tactics [OF m1])
qed

lemma rel_append_technique:
  assumes "unlinked Techniques en" and "rel_append en Subtechniques i = Inr en'"
  shows "unlinked Techniques en'"
proof -
  have sh: "shaped Techniques en"
    using assms(1) by (simp add: unlinked_def)
  have key: "Subtechniques \<in> set (relation_keys Techniques)"
    by (simp add: relation_keys_def)
  have r: "rels en Subtechniques = Some (Ids (ids_of en Subtechniques))"
    by (rule shaped_key [OF sh key])
  with assms(2) have en': "en' = en\<lparr>rels := (rels en)(Subtechniques \<mapsto> Ids (ids_of en Subtechniques @ [i]))\<rparr>"
    by (simp add: rel_append_def)
  have "shaped Techniques en'"
    unfolding en' by (rule shaped_update [OF sh key])
  moreover have "\<forall>k'. \<not> contained Techniques k' \<longrightarrow> ids_of en' k' = []"
    using assms(1) by (auto simp: en' ids_of_update unlinked_def contained_def)
  ultimately show ?thesis
    by (simp add: unlinked_def)
qed

lemma subtechnique_step_created:
  assumes "created (matrix st)" and "subtechnique_step opts st e = Inr st'"
  shows "created (matrix st')"
proof (cases "eligible opts e \<and> has_type e ''attack-pattern''
         \<and> flag (o_x_mitre_is_subtechnique e)")
  case False
  with assms show ?thesis by (auto simp: subtechnique_step_def)
next
  case True
  with assms(2) obtain subtechnique i technique ten ten' where
    parts: "map_of (put (matrix st) Subtechniques i
                    ((new_entity (Scalar subtechnique) (description_or_default e)
                       [Actors, Malwares, Mitigations, Subtechniques, Tools])
                     \<lparr>subtechnique_of := Some technique\<rparr>) Techniques) technique = Some ten"
      "rel_append ten Subtechniques i = Inr ten'"
      "matrix st' = put (put (matrix st) Subtechniques i
                    ((new_entity (Scalar subtechnique) (description_or_default e)
                       [Actors, Malwares, Mitigations, Subtechniques, Tools])
                     \<lparr>subtechnique_of := Some technique\<rparr>)) Techniques technique ten'"
    by (auto simp: subtechnique_step_def Let_def split: option.splits sum.splits prod.splits)
  let ?m1 = "put (matrix st) Subtechniques i
                    ((new_entity (Scalar subtechnique) (description_or_default e)
                       [Actors, Malwares, Mitigations, Subtechniques, Tools])
                     \<lparr>subtechnique_of := Some technique\<rparr>)"
  have m1: "created ?m1"
    by (rule created_put [OF assms(1)])
       (rule unlinked_new_subtechnique, simp add: relation_keys_def)
  have "(technique, ten) \<in> set (?m1 Techniques)"
    using parts(1) by (rule map_of_SomeD)
  with m1 have "unlinked Techniques ten"
    by (rule created_D)
  from rel_append_technique [OF this parts(2)]
  show ?thesis
    unfolding parts(3) by (rule created_put [OF m1])
qed

lemma create_passes_created:
  assumes "create_passes opts objs = Inr st"
  shows "created (matrix st)"
proof -
  from assms obtain s1 s2 s3 s4 s5 s6 where
    p: "run_pass (tactic_step opts) objs init_state = Inr s1"
       "run_pass (technique_step opts) objs s1 = Inr s2"
       "run_pass (subtechnique_step opts) objs s2 = Inr s3"
       "run_pass (actor_step opts) objs s3 = Inr s4"
       "run_pass (malware_step opts) objs s4 = Inr s5"
       "run_pass (mitigation_step opts) objs s5 = Inr s6"
       "run_pass (tool_step opts) objs s6 = Inr st"
    by (auto simp: create_passes_def split: sum.splits)
  have c1: "created (matrix s1)"
    by (rule run_pass_invariant [where P = created and f = "tactic_step opts", OF _ created_init p(1)])
       (rule tactic_step_created)
  have c2: "created (matrix s2)"
    by (rule run_pass_invariant [where P = created and f = "technique_step opts", OF _ c1 p(2)])
       (rule technique_step_created)
  have c3: "created (matrix s3)"
    by (rule run_pass_invariant [where P = created and f = "subtechnique_step opts", OF _ c2 p(3)])
       (rule subtechnique_step_created)
  have c4: "created (matrix s4)"
    by (rule run_pass_invariant [where P = created and f = "actor_step opts", OF _ c3 p(4)])
       (rule actor_step_created)
  have c5: "created (matrix s5)"
    by (rule run_pass_invariant [where P = created and f = "malware_step opts", OF _ c4 p(5)])
       (rule malware_step_created)
  have c6: "created (matrix s6)"
    by (rule run_pass_invariant [where P = created and f = "mitigation_step opts", OF _ c5 p(6)])
       (rule mitigation_step_created)
  show ?thesis
    by (rule run_pass_invariant [where P = created and f = "tool_step opts", OF _ c6 p(7)])
       (rule tool_step_created)
qed


lemma rel_ids_ids_of:
  "rel_ids g k i k' = (case map_of (g k) i of None \<Rightarrow> [] | Some en \<Rightarrow> ids_of en k')"
  by (simp add: rel_ids_def ids_of_def split: option.splits)

lemma key_symmetry:
  "\<not> contained ks kt \<Longrightarrow> \<not> contained kt ks
     \<Longrightarrow> kt \<in> set (relation_keys ks) \<longleftrightarrow> ks \<in> set (relation_keys kt)"
  by (cases ks; cases kt; simp add: relation_keys_def contained_def)

lemma created_linked:
  assumes "created g"
  shows "linked g"
proof -
  have un: "unlinked k en" if "map_of (g k) i = Some en" for k i en
    using assms map_of_SomeD [OF that] by (rule created_D)
  have wf: "wf_graph g"
    using assms by (auto simp: wf_graph_def created_def unlinked_def)
  have empty: "rel_ids g k i k' = []" if "\<not> contained k k'" for k i k'
    using that un [of k i] by (auto simp: rel_ids_ids_of unlinked_def split: option.splits)
  have sym: "symmetric_links g"
    by (simp add: symmetric_links_def empty)
  have "distinct (rel_ids g k i k')" if "\<not> (k = Techniques \<and> k' = Subtechniques)" for k i k'
  proof (cases "contained k k'")
    case True
    with that have "k = Tactics" "k' = Techniques"
      by (auto simp: contained_def)
    then show ?thesis
      using un [of Tactics i] by (auto simp: rel_ids_ids_of unlinked_def split: option.splits)
  next
    case False
    then show ?thesis by (simp add: empty)
  qed
  then have "duplicate_free g"
    by (simp add: duplicate_free_def)
  with wf sym show ?thesis
    by (simp add: linked_def)
qed

lemma map_of_put:
  "map_of (put g K i v k) a = (if k = K \<and> a = i then Some v else map_of (g k) a)"
  by (simp add: put_def update_conv')

lemma keys_put:
  "i \<in> fst ` set (g K) \<Longrightarrow> fst ` set (put g K i v k) = fst ` set (g k)"
  by (auto simp: put_def dom_update)

lemma wf_graph_put:
  assumes "wf_graph g" and "shaped K en"
  shows "wf_graph (put g K i en)"
  unfolding wf_graph_def put_def
proof (intro allI ballI)
  fix k p
  assume p: "p \<in> set ((g(K := AList.update i en (g K))) k)"
  show "shaped k (snd p)"
  proof (cases "k = K")
    case True
    with p have "p \<in> insert (i, en) (set (g K))"
      using set_update_subset [of i en "g K"] by auto
    then show ?thesis
      using assms True by (auto simp: wf_graph_def)
  next
    case False
    with p assms(1) show ?thesis by (auto simp: wf_graph_def)
  qed
qed

text \<open>What one \<open>try\<close> block of the linking does to a well-formed graph.\<close>

lemma try_link_effect:
  assumes wf: "wf_graph g" and link: "try_link g sk sid tk tid = Inr g'"
  shows "(\<forall>k. fst ` set (g' k) = fst ` set (g k))
       \<and> wf_graph g'
       \<and> (\<forall>k i k'. set (rel_ids g' k i k')
             = set (rel_ids g k i k') \<union>
               (if sk = Some k \<and> i = sid \<and> tk = Some k' \<and> sid \<in> fst ` set (g k)
                   \<and> k' \<in> set (relation_keys k) then {tid} else {}))
       \<and> (\<forall>k i k'. distinct (rel_ids g k i k') \<longrightarrow> distinct (rel_ids g' k i k'))"
proof -
  from link obtain ks where ks: "sk = Some ks"
    by (cases sk) (auto simp: try_link_def)
  show ?thesis
  proof (cases "map_of (g ks) sid")
    case None
    then have "g' = g"
      using link by (simp add: try_link_def ks)
    moreover have "sid \<notin> fst ` set (g ks)"
      using None by (simp add: map_of_eq_None_iff)
    ultimately show ?thesis
      using wf by (auto simp: ks)
  next
    case (Some en)
    then have mem: "(sid, en) \<in> set (g ks)" and key: "sid \<in> fst ` set (g ks)"
      by (auto dest: map_of_SomeD intro: rev_image_eqI)
    have sh: "shaped ks en"
      using wf mem by (force simp: wf_graph_def)
    from link Some obtain kt where kt: "tk = Some kt"
      by (cases tk) (auto simp: try_link_def ks)
    show ?thesis
    proof (cases "kt \<in> set (relation_keys ks)")
      case False
      then have "rels en kt = None"
        by (rule shaped_no_key [OF sh])
      then have "g' = g"
        using link Some by (simp add: try_link_def ks kt rel_add_def)
      then show ?thesis
        using wf False by (auto simp: ks kt)
    next
      case True
      have r: "rels en kt = Some (Ids (ids_of en kt))"
        by (rule shaped_key [OF sh True])
      show ?thesis
      proof (cases "tid \<in> set (ids_of en kt)")
        case present: True
        then have g': "g' = put g ks sid en"
          using link Some r by (simp add: try_link_def ks kt rel_add_def)
        have same: "rel_ids g' k i k' = rel_ids g k i k'" for k i k'
          using Some by (simp add: g' rel_ids_ids_of map_of_put)
        have isin: "tid \<in> set (rel_ids g ks sid kt)"
          using present Some by (simp add: rel_ids_ids_of)
        have "\<forall>k. fst ` set (g' k) = fst ` set (g k)"
          using keys_put [where g = g and K = ks and i = sid, OF key] by (simp add: g')
        moreover have "wf_graph g'"
          unfolding g' by (rule wf_graph_put [OF wf sh])
        moreover have "\<forall>k i k'. set (rel_ids g' k i k')
             = set (rel_ids g k i k') \<union>
               (if sk = Some k \<and> i = sid \<and> tk = Some k' \<and> sid \<in> fst ` set (g k)
                   \<and> k' \<in> set (relation_keys k) then {tid} else {})"
          using isin by (auto simp: same ks kt)
        moreover have "\<forall>k i k'. distinct (rel_ids g k i k') \<longrightarrow> distinct (rel_ids g' k i k')"
          by (simp add: same)
        ultimately show ?thesis
          by blast
      next
        case absent: False
        let ?en = "en\<lparr>rels := (rels en)(kt \<mapsto> Ids (ids_of en kt @ [tid]))\<rparr>"
        have g': "g' = put g ks sid ?en"
          using link Some r absent by (simp add: try_link_def ks kt rel_add_def)
        have sh': "shaped ks ?en"
          by (rule shaped_update [OF sh True])
        have ids: "rel_ids g' k i k'
            = (if k = ks \<and> i = sid \<and> k' = kt then rel_ids g k i k' @ [tid]
               else rel_ids g k i k')" for k i k'
          using Some by (simp add: g' rel_ids_ids_of map_of_put ids_of_update)
        have notin: "tid \<notin> set (rel_ids g ks sid kt)"
          using absent Some by (simp add: rel_ids_ids_of)
        have "\<forall>k. fst ` set (g' k) = fst ` set (g k)"
          using keys_put [where g = g and K = ks and i = sid, OF key] by (simp add: g')
        moreover have "wf_graph g'"
          unfolding g' by (rule wf_graph_put [OF wf sh'])
        moreover have "\<forall>k i k'. set (rel_ids g' k i k')
             = set (rel_ids g k i k') \<union>
               (if sk = Some k \<and> i = sid \<and> tk = Some k' \<and> sid \<in> fst ` set (g k)
                   \<and> k' \<in> set (relation_keys k) then {tid} else {})"
          using key True by (auto simp: ids ks kt)
        moreover have "\<forall>k i k'. distinct (rel_ids g k i k') \<longrightarrow> distinct (rel_ids g' k i k')"
          using notin by (auto simp: ids)
        ultimately show ?thesis
          by blast
      qed
    qed
  qed
qed


lemma member_with_option: "x \<in> A \<union> (if c then {y} else {}) \<longleftrightarrow> x \<in> A \<or> (c \<and> x = y)"
  by simp

text \<open>The two \<open>try\<close> blocks in a row keep the graph linked.\<close>

lemma try_link_pair_linked:
  assumes g: "linked g"
    and l1: "try_link g sk sid tk tid = Inr g1"
    and l2: "try_link g1 tk tid sk sid = Inr g2"
  shows "linked g2"
proof -
  have wf: "wf_graph g" and sym: "symmetric_links g" and dup: "duplicate_free g"
    using g by (simp_all add: linked_def)
  note e1 = try_link_effect [OF wf l1]
  note e1_keys = e1 [THEN conjunct1, rule_format]
  note wf1 = e1 [THEN conjunct2, THEN conjunct1]
  note e1_ids = e1 [THEN conjunct2, THEN conjunct2, THEN conjunct1, rule_format]
  note e1_dist = e1 [THEN conjunct2, THEN conjunct2, THEN conjunct2, rule_format]
  note e2 = try_link_effect [OF wf1 l2]
  note e2_keys = e2 [THEN conjunct1, rule_format]
  note wf2 = e2 [THEN conjunct2, THEN conjunct1]
  note e2_ids = e2 [THEN conjunct2, THEN conjunct2, THEN conjunct1, rule_format]
  note e2_dist = e2 [THEN conjunct2, THEN conjunct2, THEN conjunct2, rule_format]
  have keys1: "fst ` set (g1 k) = fst ` set (g k)" for k
    by (rule e1_keys)
  have keys2: "fst ` set (g2 k) = fst ` set (g k)" for k
    by (simp only: e2_keys e1_keys)
  have ids1: "set (rel_ids g1 k i k')
      = set (rel_ids g k i k') \<union>
        (if sk = Some k \<and> i = sid \<and> tk = Some k' \<and> sid \<in> fst ` set (g k)
            \<and> k' \<in> set (relation_keys k) then {tid} else {})" for k i k'
    by (rule e1_ids)
  have ids2: "set (rel_ids g2 k i k')
      = set (rel_ids g1 k i k') \<union>
        (if tk = Some k \<and> i = tid \<and> sk = Some k' \<and> tid \<in> fst ` set (g k)
            \<and> k' \<in> set (relation_keys k) then {sid} else {})" for k i k'
    by (simp only: e2_ids keys1)
  have d1: "distinct (rel_ids g k i k') \<Longrightarrow> distinct (rel_ids g1 k i k')" for k i k'
    by (rule e1_dist)
  have d2: "distinct (rel_ids g1 k i k') \<Longrightarrow> distinct (rel_ids g2 k i k')" for k i k'
    by (rule e2_dist)
  have "wf_graph g2"
    by (rule wf2)
  moreover have "duplicate_free g2"
  proof -
    show ?thesis
      unfolding duplicate_free_def
    proof (intro allI impI)
      fix k i k'
      assume "\<not> (k = Techniques \<and> k' = Subtechniques)"
      then have "distinct (rel_ids g k i k')"
        using dup unfolding duplicate_free_def by blast
      then show "distinct (rel_ids g2 k i k')"
        by (intro d2 d1)
    qed
  qed
  moreover have "symmetric_links g2"
    unfolding symmetric_links_def
  proof (intro allI impI)
    fix ks kt s t
    assume a: "\<not> contained ks kt \<and> \<not> contained kt ks
      \<and> s \<in> fst ` set (g2 ks) \<and> t \<in> fst ` set (g2 kt)"
    then have s: "s \<in> fst ` set (g ks)" and t: "t \<in> fst ` set (g kt)"
      by (simp_all only: keys2)
    have old: "t \<in> set (rel_ids g ks s kt) \<longleftrightarrow> s \<in> set (rel_ids g kt t ks)"
      using sym a s t unfolding symmetric_links_def by blast
    have tab: "kt \<in> set (relation_keys ks) \<longleftrightarrow> ks \<in> set (relation_keys kt)"
      using a key_symmetry [of ks kt] by blast
    have lhs: "t \<in> set (rel_ids g2 ks s kt) \<longleftrightarrow>
      (t \<in> set (rel_ids g ks s kt)
        \<or> (sk = Some ks \<and> s = sid \<and> tk = Some kt \<and> sid \<in> fst ` set (g ks)
            \<and> kt \<in> set (relation_keys ks)) \<and> t = tid)
      \<or> (tk = Some ks \<and> s = tid \<and> sk = Some kt \<and> tid \<in> fst ` set (g ks)
            \<and> kt \<in> set (relation_keys ks)) \<and> t = sid"
      by (simp only: ids2 [of ks s kt] ids1 [of ks s kt] member_with_option)
    have rhs: "s \<in> set (rel_ids g2 kt t ks) \<longleftrightarrow>
      (s \<in> set (rel_ids g kt t ks)
        \<or> (sk = Some kt \<and> t = sid \<and> tk = Some ks \<and> sid \<in> fst ` set (g kt)
            \<and> ks \<in> set (relation_keys kt)) \<and> s = tid)
      \<or> (tk = Some kt \<and> t = tid \<and> sk = Some ks \<and> tid \<in> fst ` set (g kt)
            \<and> ks \<in> set (relation_keys kt)) \<and> s = sid"
      by (simp only: ids2 [of kt t ks] ids1 [of kt t ks] member_with_option)
    show "t \<in> set (rel_ids g2 ks s kt) \<longleftrightarrow> s \<in> set (rel_ids g2 kt t ks)"
      unfolding lhs rhs using old tab s t by blast
  qed
  ultimately show ?thesis
    by (simp add: linked_def)
qed

lemma link_step_linked:
  assumes "linked (matrix st)" and "link_step opts objs st e = Inr st'"
  shows "linked (matrix st')"
proof -
  have "matrix st' = matrix st
      \<or> (\<exists>sk sid tk tid g1. try_link (matrix st) sk sid tk tid = Inr g1
            \<and> try_link g1 tk tid sk sid = Inr (matrix st'))"
    using assms(2)
    by (auto simp: link_step_def Let_def
             split: if_splits option.splits sum.splits prod.splits)
  then show ?thesis
    using assms(1) try_link_pair_linked by auto
qed

lemma transform_graph_linked:
  assumes "Transform_graph opts objs = Inr g"
  shows "linked g"
proof -
  from assms obtain s7 s8 where
    p: "create_passes opts objs = Inr s7"
       "run_pass (link_step opts objs) objs s7 = Inr s8" "g = matrix s8"
    by (auto simp: Transform_graph_def split: sum.splits)
  have l7: "linked (matrix s7)"
    by (rule created_linked [OF create_passes_created [OF p(1)]])
  have "linked (matrix s8)"
    by (rule run_pass_invariant [where P = linked and f = "link_step opts objs", OF _ l7 p(2)])
       (rule link_step_linked)
  then show ?thesis
    by (simp add: p(3))
qed

text \<open>
  Claim C1, amended. In the graph that \<open>Transform\<close> returns, for every two kinds other
  than a tactic with its techniques and a technique with its subtechniques (these two
  containment lists are kept on the containing side only), and for every two entities
  \<open>s\<close> and \<open>t\<close> of these kinds in the graph: \<open>t\<close> is in the list that \<open>s\<close> keeps for the kind
  of \<open>t\<close> exactly when \<open>s\<close> is in the list that \<open>t\<close> keeps for the kind of \<open>s\<close>. And every
  relation list is free of duplicates, the subtechnique list of a technique left aside.
\<close>

theorem transform_links_symmetric:
  assumes "Transform opts objs = Inr c" and "(m, g) \<in> set c"
  shows "(\<forall>ks kt s t. \<not> contained ks kt \<and> \<not> contained kt ks
             \<and> s \<in> fst ` set (g ks) \<and> t \<in> fst ` set (g kt)
            \<longrightarrow> (t \<in> set (rel_ids g ks s kt) \<longleftrightarrow> s \<in> set (rel_ids g kt t ks)))
       \<and> (\<forall>k i k'. \<not> (k = Techniques \<and> k' = Subtechniques) \<longrightarrow> distinct (rel_ids g k i k'))"
proof -
  from assms have "Transform_graph opts objs = Inr g"
    by (auto simp: Transform_def split: sum.splits)
  then have "linked g"
    by (rule transform_graph_linked)
  then show ?thesis
    by (simp add: linked_def symmetric_links_def duplicate_free_def)
qed


theorem transform_links_symmetric_witness:
  "Transform (ex_opts True False) ex_bundle = Inr ex_cache
   \<and> (''Enterprise'', ex_graph) \<in> set ex_cache
   \<and> \<not> contained Actors Tools \<and> \<not> contained Tools Actors
   \<and> ''G0035'' \<in> fst ` set (ex_graph Actors) \<and> ''S0002'' \<in> fst ` set (ex_graph Tools)
   \<and> (''S0002'' \<in> set (rel_ids ex_graph Actors ''G0035'' Tools)
        \<longleftrightarrow> ''G0035'' \<in> set (rel_ids ex_graph Tools ''S0002'' Actors))
   \<and> ''S0002'' \<in> set (rel_ids ex_graph Actors ''G0035'' Tools)
   \<and> distinct (rel_ids ex_graph Actors ''G0035'' Techniques)"
proof -
  have h1: "Transform (ex_opts True False) ex_bundle = Inr ex_cache"
    by code_simp
  have h2: "(''Enterprise'', ex_graph) \<in> set ex_cache"
    by code_simp
  have h3: "\<not> contained Actors Tools \<and> \<not> contained Tools Actors
      \<and> ''G0035'' \<in> fst ` set (ex_graph Actors) \<and> ''S0002'' \<in> fst ` set (ex_graph Tools)"
    by code_simp
  have h4: "''S0002'' \<in> set (rel_ids ex_graph Actors ''G0035'' Tools)"
    by code_simp
  note inst = transform_links_symmetric [OF h1 h2]
  have "''S0002'' \<in> set (rel_ids ex_graph Actors ''G0035'' Tools)
        \<longleftrightarrow> ''G0035'' \<in> set (rel_ids ex_graph Tools ''S0002'' Actors)"
    using inst [THEN conjunct1, rule_format, of Actors Tools "''G0035''" "''S0002''"] h3
    by blast
  moreover have "distinct (rel_ids ex_graph Actors ''G0035'' Techniques)"
    using inst [THEN conjunct2, rule_format, of Actors Techniques "''G0035''"] by simp
  ultimately show ?thesis
    using h1 h2 h3 h4 by blast
qed

text \<open>
  Claim C1 as stated does not hold. The tactic TA0001 and the technique T1566 are both in
  the graph; the tactic lists the technique, and the technique has no list of tactics. In
  the same way the technique T1548 lists its subtechnique T1548.001, which has no list of
  techniques; and when the subtechnique record occurs twice in the bundle, the list of the
  technique holds its id twice.
\<close>

theorem transform_containment_one_sided:
  "''TA0001'' \<in> fst ` set (ex_graph Tactics) \<and> ''T1566'' \<in> fst ` set (ex_graph Techniques)
   \<and> ''T1566'' \<in> set (rel_ids ex_graph Tactics ''TA0001'' Techniques)
   \<and> ''TA0001'' \<notin> set (rel_ids ex_graph Techniques ''T1566'' Tactics)
   \<and> map_sum id (\<lambda>g. (names_in g Subtechniques,
                        rel_ids g Techniques ''T1548'' Subtechniques,
                        rel_ids g Subtechniques ''T1548.001'' Techniques))
        (Transform_graph (ex_opts True True) [ex_parent, ex_sub, ex_sub])
       = Inr ([(''T1548.001'', Scalar ''Setuid and Setgid'')],
              [''T1548.001'', ''T1548.001''], [])"
  by code_simp

section \<open>The reference loop in general\<close>

text \<open>
  The reference loop, when every reference with an id names its source: the id is the
  \<open>external_id\<close> of the last qualifying reference, and the id the loop started with when
  no reference qualifies.
\<close>

lemma scan_refs_last:
  assumes "list_all (\<lambda>r. \<not> truthy (external_id r) \<or> source_name r \<noteq> None) refs"
  shows "scan_refs refs cur
           = Inr (if filter qualifying refs = [] then cur
                  else external_id (last (filter qualifying refs)))"
  using assms
proof (induction refs arbitrary: cur)
  case Nil
  show ?case by simp
next
  case (Cons r rs)
  have rest: "list_all (\<lambda>r. \<not> truthy (external_id r) \<or> source_name r \<noteq> None) rs"
    using Cons.prems by simp
  show ?case
  proof (cases "qualifying r")
    case True
    then have "scan_refs (r # rs) cur = scan_refs rs (external_id r)"
      by (auto simp: qualifying_def split: option.splits)
    then show ?thesis
      using True by (simp add: Cons.IH [OF rest])
  next
    case False
    then have "scan_refs (r # rs) cur = scan_refs rs cur"
      using Cons.prems by (auto simp: qualifying_def split: option.splits)
    then show ?thesis
      using False by (simp add: Cons.IH [OF rest])
  qed
qed

section \<open>The names that Transform gives\<close>

lemma in_update: "p \<in> set (AList.update k v al) \<Longrightarrow> p = (k, v) \<or> p \<in> set al"
  by (induction al) (auto split: if_splits)

lemma all_named_put:
  assumes "all_named g" and "named K en"
  shows "all_named (put g K i en)"
  unfolding all_named_def put_def
proof (intro allI ballI)
  fix k p
  assume p: "p \<in> set ((g(K := AList.update i en (g K))) k)"
  show "named k (snd p)"
  proof (cases "k = K")
    case True
    with p have "p = (i, en) \<or> p \<in> set (g K)"
      by (auto dest: in_update)
    then show ?thesis
      using assms True by (auto simp: all_named_def)
  next
    case False
    with p assms(1) show ?thesis by (auto simp: all_named_def)
  qed
qed

lemma all_named_D: "all_named g \<Longrightarrow> (i, en) \<in> set (g k) \<Longrightarrow> named k en"
  unfolding all_named_def by force

lemma rel_add_name: "rel_add en k i = Inr en' \<Longrightarrow> name en' = name en"
  by (auto simp: rel_add_def split: option.splits relval.splits if_splits)

lemma rel_append_name: "rel_append en k i = Inr en' \<Longrightarrow> name en' = name en"
  by (auto simp: rel_append_def split: option.splits relval.splits)

lemma named_cong: "name en' = name en \<Longrightarrow> named k en \<Longrightarrow> named k en'"
  by (simp add: named_def)

lemma tactics_add_named:
  assumes "\<forall>p \<in> set al. named Tactics (snd p)" and "tactics_add i ph al = Inr al'"
  shows "\<forall>p \<in> set al'. named Tactics (snd p)"
  using assms
proof (induction al arbitrary: al')
  case Nil
  then show ?case by simp
next
  case (Cons p al)
  obtain t en where p: "p = (t, en)" by (cases p)
  from Cons.prems(2) obtain n en' rest' where
    parts: "name en = Scalar n"
      "(if substr (lower n) (lower ph) then rel_add en Techniques i else Inr en) = Inr en'"
      "tactics_add i ph al = Inr rest'" "al' = (t, en') # rest'"
    by (auto simp: p split: nameval.splits sum.splits)
  have "name en' = name en"
    using parts(2) by (auto split: if_splits dest: rel_add_name)
  moreover have "named Tactics en"
    using Cons.prems(1) by (simp add: p)
  ultimately have "named Tactics en'"
    by (rule named_cong)
  moreover have "\<forall>q \<in> set rest'. named Tactics (snd q)"
    using Cons.IH [OF _ parts(3)] Cons.prems(1) by simp
  ultimately show ?case
    by (simp add: parts(4))
qed

lemma phases_loop_named:
  assumes "\<forall>p \<in> set tacs. named Tactics (snd p)" and "phases_loop i ps tacs = Inr tacs'"
  shows "\<forall>p \<in> set tacs'. named Tactics (snd p)"
  using assms
proof (induction ps arbitrary: tacs)
  case Nil
  then show ?case by simp
next
  case (Cons ph ps)
  from Cons.prems(2) obtain kcn where kcn: "kill_chain_name ph = Some kcn"
    by (auto split: option.splits)
  show ?case
  proof (cases "phase_name ph")
    case None
    with Cons kcn show ?thesis by simp
  next
    case (Some x)
    show ?thesis
    proof (cases "substr ''attack'' kcn \<and> x \<noteq> []")
      case True
      with Cons.prems(2) kcn Some obtain mid where
        mid: "tactics_add i (capwords (replace_dash x)) tacs = Inr mid"
          "phases_loop i ps mid = Inr tacs'"
        by (auto split: sum.splits)
      from tactics_add_named [OF Cons.prems(1) mid(1)]
      show ?thesis
        using Cons.IH [OF _ mid(2)] by blast
    next
      case False
      with Cons kcn Some show ?thesis by auto
    qed
  qed
qed

lemma tactic_step_named:
  assumes "all_named (matrix st)" and "tactic_step opts st e = Inr st'"
  shows "all_named (matrix st')"
  using assms
  by (auto simp: tactic_step_def named_def new_entity_def
           intro!: all_named_put split: if_splits option.splits sum.splits)

lemma actor_step_named:
  assumes "all_named (matrix st)" and "actor_step opts st e = Inr st'"
  shows "all_named (matrix st')"
  using assms
  by (auto simp: actor_step_def named_def new_entity_def
           intro!: all_named_put split: if_splits option.splits sum.splits list.splits)

lemma malware_step_named:
  assumes "all_named (matrix st)" and "malware_step opts st e = Inr st'"
  shows "all_named (matrix st')"
  using assms
  by (auto simp: malware_step_def named_def new_entity_def
           intro!: all_named_put split: if_splits option.splits sum.splits)

lemma mitigation_step_named:
  assumes "all_named (matrix st)" and "mitigation_step opts st e = Inr st'"
  shows "all_named (matrix st')"
  using assms
  by (auto simp: mitigation_step_def named_def new_entity_def
           intro!: all_named_put split: if_splits option.splits sum.splits)

lemma tool_step_named:
  assumes "all_named (matrix st)" and "tool_step opts st e = Inr st'"
  shows "all_named (matrix st')"
  using assms
  by (auto simp: tool_step_def named_def new_entity_def
           intro!: all_named_put split: if_splits option.splits sum.splits)

lemma technique_step_named:
  assumes "all_named (matrix st)" and "technique_step opts st e = Inr st'"
  shows "all_named (matrix st')"
proof (cases "eligible opts e \<and> has_type e ''attack-pattern''
         \<and> \<not> flag (o_x_mitre_is_subtechnique e)")
  case False
  with assms show ?thesis by (auto simp: technique_step_def)
next
  case True
  with assms(2) obtain technique refs i tacs where
    parts: "phases_loop i (case o_kill_chain_phases e of None \<Rightarrow> [] | Some ps \<Rightarrow> ps)
         (put (matrix st) Techniques i
            (new_entity (Scalar technique) (description_or_default e)
               [Actors, Malwares, Mitigations, Subtechniques, Tools]) Tactics) = Inr tacs"
      "matrix st' = (put (matrix st) Techniques i
            (new_entity (Scalar technique) (description_or_default e)
               [Actors, Malwares, Mitigations, Subtechniques, Tools]))(Tactics := tacs)"
    by (auto simp: technique_step_def Let_def split: option.splits sum.splits)
  let ?m1 = "put (matrix st) Techniques i
            (new_entity (Scalar technique) (description_or_default e)
               [Actors, Malwares, Mitigations, Subtechniques, Tools])"
  have m1: "all_named ?m1"
    by (rule all_named_put [OF assms(1)]) (simp add: named_def new_entity_def)
  then have "\<forall>p \<in> set (?m1 Tactics). named Tactics (snd p)"
    by (simp add: all_named_def)
  from phases_loop_named [OF this parts(1)] m1
  show ?thesis
    unfolding parts(2) by (auto simp: all_named_def)
qed

lemma subtechnique_step_named:
  assumes "all_named (matrix st)" and "subtechnique_step opts st e = Inr st'"
  shows "all_named (matrix st')"
proof (cases "eligible opts e \<and> has_type e ''attack-pattern''
         \<and> flag (o_x_mitre_is_subtechnique e)")
  case False
  with assms show ?thesis by (auto simp: subtechnique_step_def)
next
  case True
  with assms(2) obtain subtechnique i technique ten ten' where
    parts: "map_of (put (matrix st) Subtechniques i
                    ((new_entity (Scalar subtechnique) (description_or_default e)
                       [Actors, Malwares, Mitigations, Subtechniques, Tools])
                     \<lparr>subtechnique_of := Some technique\<rparr>) Techniques) technique = Some ten"
      "rel_append ten Subtechniques i = Inr ten'"
      "matrix st' = put (put (matrix st) Subtechniques i
                    ((new_entity (Scalar subtechnique) (description_or_default e)
                       [Actors, Malwares, Mitigations, Subtechniques, Tools])
                     \<lparr>subtechnique_of := Some technique\<rparr>)) Techniques technique ten'"
    by (auto simp: subtechnique_step_def Let_def split: option.splits sum.splits prod.splits)
  let ?m1 = "put (matrix st) Subtechniques i
                    ((new_entity (Scalar subtechnique) (description_or_default e)
                       [Actors, Malwares, Mitigations, Subtechniques, Tools])
                     \<lparr>subtechnique_of := Some technique\<rparr>)"
  have m1: "all_named ?m1"
    by (rule all_named_put [OF assms(1)]) (simp add: named_def new_entity_def)
  have "(technique, ten) \<in> set (?m1 Techniques)"
    using parts(1) by (rule map_of_SomeD)
  with m1 have "named Techniques ten"
    by (rule all_named_D)
  then have "named Techniques ten'"
    by (rule named_cong [OF rel_append_name [OF parts(2)]])
  then show ?thesis
    unfolding parts(3) by (rule all_named_put [OF m1])
qed

lemma try_link_named:
  assumes "all_named g" and "try_link g sk sid tk tid = Inr g'"
  shows "all_named g'"
proof -
  have "g' = g \<or> (\<exists>ks en kt en'. map_of (g ks) sid = Some en
            \<and> rel_add en kt tid = Inr en' \<and> g' = put g ks sid en')"
    using assms(2)
    by (auto simp: try_link_def split: option.splits sum.splits if_splits)
  then show ?thesis
  proof
    assume "g' = g"
    with assms(1) show ?thesis by simp
  next
    assume "\<exists>ks en kt en'. map_of (g ks) sid = Some en
            \<and> rel_add en kt tid = Inr en' \<and> g' = put g ks sid en'"
    then obtain ks en kt en' where
      p: "map_of (g ks) sid = Some en" "rel_add en kt tid = Inr en'" "g' = put g ks sid en'"
      by blast
    have "named ks en"
      using assms(1) map_of_SomeD [OF p(1)] by (rule all_named_D)
    then have "named ks en'"
      by (rule named_cong [OF rel_add_name [OF p(2)]])
    then show ?thesis
      unfolding p(3) by (rule all_named_put [OF assms(1)])
  qed
qed

lemma link_step_named:
  assumes "all_named (matrix st)" and "link_step opts objs st e = Inr st'"
  shows "all_named (matrix st')"
proof -
  have "matrix st' = matrix st
      \<or> (\<exists>sk sid tk tid g1. try_link (matrix st) sk sid tk tid = Inr g1
            \<and> try_link g1 tk tid sk sid = Inr (matrix st'))"
    using assms(2)
    by (auto simp: link_step_def Let_def
             split: if_splits option.splits sum.splits prod.splits)
  then show ?thesis
    using assms(1) try_link_named by metis
qed


lemma transform_graph_named:
  assumes "Transform_graph opts objs = Inr g"
  shows "all_named g"
proof -
  from assms obtain s1 s2 s3 s4 s5 s6 s7 s8 where
    p: "run_pass (tactic_step opts) objs init_state = Inr s1"
       "run_pass (technique_step opts) objs s1 = Inr s2"
       "run_pass (subtechnique_step opts) objs s2 = Inr s3"
       "run_pass (actor_step opts) objs s3 = Inr s4"
       "run_pass (malware_step opts) objs s4 = Inr s5"
       "run_pass (mitigation_step opts) objs s5 = Inr s6"
       "run_pass (tool_step opts) objs s6 = Inr s7"
       "run_pass (link_step opts objs) objs s7 = Inr s8" "g = matrix s8"
    by (auto simp: Transform_graph_def create_passes_def split: sum.splits)
  have c0: "all_named (matrix init_state)"
    by (simp add: all_named_def init_state_def)
  have c1: "all_named (matrix s1)"
    by (rule run_pass_invariant [where P = all_named and f = "tactic_step opts", OF _ c0 p(1)])
       (rule tactic_step_named)
  have c2: "all_named (matrix s2)"
    by (rule run_pass_invariant [where P = all_named and f = "technique_step opts", OF _ c1 p(2)])
       (rule technique_step_named)
  have c3: "all_named (matrix s3)"
    by (rule run_pass_invariant [where P = all_named and f = "subtechnique_step opts", OF _ c2 p(3)])
       (rule subtechnique_step_named)
  have c4: "all_named (matrix s4)"
    by (rule run_pass_invariant [where P = all_named and f = "actor_step opts", OF _ c3 p(4)])
       (rule actor_step_named)
  have c5: "all_named (matrix s5)"
    by (rule run_pass_invariant [where P = all_named and f = "malware_step opts", OF _ c4 p(5)])
       (rule malware_step_named)
  have c6: "all_named (matrix s6)"
    by (rule run_pass_invariant [where P = all_named and f = "mitigation_step opts", OF _ c5 p(6)])
       (rule mitigation_step_named)
  have c7: "all_named (matrix s7)"
    by (rule run_pass_invariant [where P = all_named and f = "tool_step opts", OF _ c6 p(7)])
       (rule tool_step_named)
  have "all_named (matrix s8)"
    by (rule run_pass_invariant [where P = all_named and f = "link_step opts objs", OF _ c7 p(8)])
       (rule link_step_named)
  then show ?thesis
    by (simp add: p(9))
qed

text \<open>
  The names in the graph that \<open>Transform\<close> returns: a string for every tactic, technique,
  subtechnique and mitigation, a list for every malware and tool, and for an actor either
  a non-empty list or a string.
\<close>

lemma transform_name_shapes:
  assumes "Transform opts objs = Inr c" and "(m, g) \<in> set c" and "(i, en) \<in> set (g k)"
  shows "(case name en of
            Scalar s \<Rightarrow> k \<noteq> Malwares \<and> k \<noteq> Tools
          | Aliases xs \<Rightarrow> k = Malwares \<or> k = Tools \<or> (k = Actors \<and> xs \<noteq> []))"
proof -
  from assms(1,2) have "Transform_graph opts objs = Inr g"
    by (auto simp: Transform_def split: sum.splits)
  then have "all_named g"
    by (rule transform_graph_named)
  then have "named k en"
    using assms(3) by (rule all_named_D)
  then show ?thesis
    by (simp add: named_def)
qed

end
